theory Spec2Isabelle
  imports Complex_Main "HOL-Library.Word"
begin

section \<open>The cell and the grid\<close>

text \<open>
  The struct \<open>cell\<close>: the handle of the tile's vertex array (a \<open>uint32\<close> that only the
  drawing code reads), the two flags and the coordinates. The coordinates are Go
  \<open>int\<close>s; they are modelled as unbounded integers: the only arithmetic on them is
  \<open>c.x - 1\<close>, \<open>c.x + 1\<close> (and the same for \<open>c.y\<close>), and a result that wrapped around
  at 64 bits is out of range of every slice that fits in memory, exactly as the
  unwrapped result is.
\<close>

record cell =
  drawable :: "32 word"
  alive :: bool
  nextState :: bool
  x :: int
  y :: int

text \<open>
  The board \<open>[][]*cell\<close>. Every pointer that \<open>makeCells\<close> stores is fresh and not
  nil, so a cell is identified by the position at which the board holds it, and a write
  through the pointer is an update of the board at that position.
\<close>

type_synonym grid = "cell list list"

definition setCell :: "grid \<Rightarrow> nat \<Rightarrow> nat \<Rightarrow> cell \<Rightarrow> grid" where
  "setCell cells i j c = cells[i := (cells ! i)[j := c]]"

section \<open>liveNeighbors\<close>

text \<open>
  The index computation of the closure \<open>add\<close>: the position at which
  \<open>cells[x][y]\<close> is read, or \<open>None\<close> when one of the index expressions
  \<open>cells[x]\<close>, \<open>cells[x][y]\<close> panics (index out of range).
\<close>

definition add_index :: "grid \<Rightarrow> int \<Rightarrow> int \<Rightarrow> (nat \<times> nat) option" where
  "add_index cells a b =
     (let a = (if a = int (length cells) then 0
               else if a = - 1 then int (length cells) - 1
               else a)
      in if a < 0 \<or> int (length cells) \<le> a then None
         else
           let b = (if b = int (length (cells ! nat a)) then 0
                    else if b = - 1 then int (length (cells ! nat a)) - 1
                    else b)
           in if b < 0 \<or> int (length (cells ! nat a)) \<le> b then None
              else Some (nat a, nat b))"

text \<open>The closure \<open>add\<close>, with the captured counter \<open>liveCount\<close> passed and returned.\<close>

definition add :: "grid \<Rightarrow> int \<Rightarrow> int \<Rightarrow> int \<Rightarrow> int option" where
  "add cells a b liveCount =
     (case add_index cells a b of
        None \<Rightarrow> None
      | Some p \<Rightarrow> Some (if alive (cells ! fst p ! snd p) then liveCount + 1 else liveCount))"

text \<open>The arguments of the eight calls of \<open>add\<close>, in the order of the source.\<close>

definition addArgs :: "cell \<Rightarrow> (int \<times> int) list" where
  "addArgs c =
     [(x c - 1, y c),
      (x c + 1, y c),
      (x c, y c + 1),
      (x c, y c - 1),
      (x c - 1, y c + 1),
      (x c + 1, y c + 1),
      (x c - 1, y c - 1),
      (x c + 1, y c - 1)]"

fun addAll :: "grid \<Rightarrow> (int \<times> int) list \<Rightarrow> int \<Rightarrow> int option" where
  "addAll cells [] liveCount = Some liveCount"
| "addAll cells (p # ps) liveCount =
     (case add cells (fst p) (snd p) liveCount of
        None \<Rightarrow> None
      | Some n \<Rightarrow> addAll cells ps n)"

definition liveNeighbors :: "cell \<Rightarrow> grid \<Rightarrow> int option" where
  "liveNeighbors c cells = addAll cells (addArgs c) 0"

text \<open>The positions that the eight calls read, in order (\<open>None\<close> for a call that panics).\<close>

definition examined :: "cell \<Rightarrow> grid \<Rightarrow> (nat \<times> nat) option list" where
  "examined c cells = map (\<lambda>p. add_index cells (fst p) (snd p)) (addArgs c)"

section \<open>checkState\<close>

text \<open>
  The receiver is the cell that the board holds at position \<open>(i, j)\<close>; \<open>main\<close> calls
  the method for such cells only. The two assignments at the top of the method are
  written through the pointer, so \<open>liveNeighbors\<close> sees them on the board.
\<close>

definition checkState :: "grid \<Rightarrow> nat \<Rightarrow> nat \<Rightarrow> grid option" where
  "checkState cells i j =
     (if \<not> (i < length cells \<and> j < length (cells ! i)) then None
      else
        let c = cells ! i ! j;
            c = c\<lparr>alive := nextState c\<rparr>;
            c = c\<lparr>nextState := alive c\<rparr>;
            cells = setCell cells i j c
        in case liveNeighbors c cells of
             None \<Rightarrow> None
           | Some liveCount \<Rightarrow>
               let c =
                 (if alive c then
                    let c = (if liveCount < 2 then c\<lparr>nextState := False\<rparr> else c);
                        c = (if liveCount = 2 \<or> liveCount = 3 then c\<lparr>nextState := True\<rparr> else c);
                        c = (if liveCount > 3 then c\<lparr>nextState := False\<rparr> else c)
                    in c
                  else
                    (if liveCount = 3 then c\<lparr>nextState := True\<rparr> else c))
               in Some (setCell cells i j c))"

section \<open>The pass of main\<close>

text \<open>
  The two nested \<open>range\<close> loops of \<open>main\<close>: \<open>checkState\<close> on every cell, row by row,
  each call working on the board that the calls before it left.
\<close>

fun checkRow :: "grid \<Rightarrow> nat \<Rightarrow> nat list \<Rightarrow> grid option" where
  "checkRow cells i [] = Some cells"
| "checkRow cells i (j # js) =
     (case checkState cells i j of
        None \<Rightarrow> None
      | Some cells' \<Rightarrow> checkRow cells' i js)"

fun checkRows :: "grid \<Rightarrow> nat list \<Rightarrow> grid option" where
  "checkRows cells [] = Some cells"
| "checkRows cells (i # is) =
     (case checkRow cells i [0..<length (cells ! i)] of
        None \<Rightarrow> None
      | Some cells' \<Rightarrow> checkRows cells' is)"

definition pass :: "grid \<Rightarrow> grid option" where
  "pass cells = checkRows cells [0..<length cells]"

text \<open>The first \<open>n\<close> iterations of the loop of \<open>main\<close>, as far as the board goes.\<close>

fun passes :: "nat \<Rightarrow> grid \<Rightarrow> grid option" where
  "passes 0 cells = Some cells"
| "passes (Suc n) cells =
     (case pass cells of
        None \<Rightarrow> None
      | Some cells' \<Rightarrow> passes n cells')"

section \<open>makeCells\<close>

text \<open>
  \<open>newCell\<close> returns a cell with both flags at their zero value. Its handle is what
  \<open>makeVao\<close> got from the graphics library for the tile of \<open>(x, y)\<close>; the model takes
  it as the parameter \<open>vao\<close>.
\<close>

definition newCell :: "(int \<Rightarrow> int \<Rightarrow> 32 word) \<Rightarrow> int \<Rightarrow> int \<Rightarrow> cell" where
  "newCell vao a b = \<lparr>drawable = vao a b, alive = False, nextState = False, x = a, y = b\<rparr>"

text \<open>
  The generator is the sequence \<open>rnd\<close> of the values that the successive calls of
  \<open>rand.Float64\<close> return (the seed chooses the sequence), with the number of draws made
  so far threaded through the loops. A draw and the threshold are \<open>float64\<close> values;
  they are compared, never computed with, so they are modelled by the real numbers they
  denote. The package constants \<open>rows\<close>, \<open>columns\<close> and \<open>threshold\<close> are parameters.
\<close>

fun makeRow ::
  "(int \<Rightarrow> int \<Rightarrow> 32 word) \<Rightarrow> real \<Rightarrow> (nat \<Rightarrow> real) \<Rightarrow> nat \<Rightarrow> nat list \<Rightarrow>
   cell list \<times> nat \<Rightarrow> cell list \<times> nat" where
  "makeRow vao threshold rnd a [] (row, k) = (row, k)"
| "makeRow vao threshold rnd a (b # bs) (row, k) =
     (let c = newCell vao (int a) (int b);
          c = c\<lparr>alive := rnd k < threshold\<rparr>;
          c = c\<lparr>nextState := alive c\<rparr>
      in makeRow vao threshold rnd a bs (row @ [c], Suc k))"

fun makeRows ::
  "(int \<Rightarrow> int \<Rightarrow> 32 word) \<Rightarrow> nat \<Rightarrow> real \<Rightarrow> (nat \<Rightarrow> real) \<Rightarrow> nat list \<Rightarrow>
   grid \<times> nat \<Rightarrow> grid \<times> nat" where
  "makeRows vao columns threshold rnd [] (cells, k) = (cells, k)"
| "makeRows vao columns threshold rnd (a # as) (cells, k) =
     (let r = makeRow vao threshold rnd a [0..<columns] (cells ! a, k)
      in makeRows vao columns threshold rnd as (cells[a := fst r], snd r))"

definition makeCells ::
  "(int \<Rightarrow> int \<Rightarrow> 32 word) \<Rightarrow> nat \<Rightarrow> nat \<Rightarrow> real \<Rightarrow> (nat \<Rightarrow> real) \<Rightarrow> grid" where
  "makeCells vao rows columns threshold rnd =
     fst (makeRows vao columns threshold rnd [0..<rows] (replicate rows [], 0))"

section \<open>Boards and configurations\<close>

text \<open>A board of \<open>R\<close> rows of \<open>C\<close> cells each.\<close>

definition rect :: "nat \<Rightarrow> nat \<Rightarrow> grid \<Rightarrow> bool" where
  "rect R C cells \<longleftrightarrow> length cells = R \<and> (\<forall>i < R. length (cells ! i) = C)"

text \<open>Every cell carries the coordinates of its own position, as \<open>makeCells\<close> sets them.\<close>

definition placed :: "grid \<Rightarrow> bool" where
  "placed cells \<longleftrightarrow>
     (\<forall>i < length cells. \<forall>j < length (cells ! i).
        x (cells ! i ! j) = int i \<and> y (cells ! i ! j) = int j)"

text \<open>The cell that \<open>makeCells\<close> stores at \<open>(i, j)\<close> when its draw decides \<open>b\<close>.\<close>

definition mkCell :: "(int \<Rightarrow> int \<Rightarrow> 32 word) \<Rightarrow> nat \<Rightarrow> nat \<Rightarrow> bool \<Rightarrow> cell" where
  "mkCell vao i j b = \<lparr>drawable = vao (int i) (int j), alive = b, nextState = b, x = int i, y = int j\<rparr>"

text \<open>
  The board that \<open>makeCells\<close> returns when the draws make exactly the cells of the
  pattern \<open>f\<close> alive: both flags of the cell at \<open>(i, j)\<close> are \<open>f i j\<close>.
\<close>

definition board :: "(int \<Rightarrow> int \<Rightarrow> 32 word) \<Rightarrow> nat \<Rightarrow> nat \<Rightarrow> (nat \<Rightarrow> nat \<Rightarrow> bool) \<Rightarrow> grid" where
  "board vao R C f = map (\<lambda>i. map (\<lambda>j. mkCell vao i j (f i j)) [0..<C]) [0..<R]"

text \<open>The index that \<open>add\<close> turns a row (or column) index into, on a side of length \<open>n\<close>.\<close>

definition wrapped :: "nat \<Rightarrow> int \<Rightarrow> nat" where
  "wrapped n a = nat (if a = int n then 0 else if a = - 1 then int n - 1 else a)"

text \<open>A board on which every call of \<open>checkState\<close> finds the flags it would write.\<close>

definition still :: "grid \<Rightarrow> bool" where
  "still cells \<longleftrightarrow>
     (\<forall>i < length cells. \<forall>j < length (cells ! i).
        nextState (cells ! i ! j) = alive (cells ! i ! j) \<and>
        (\<exists>n. liveNeighbors (cells ! i ! j) cells = Some n \<and>
             (if alive (cells ! i ! j) then n = 2 \<or> n = 3 else n = 3) = alive (cells ! i ! j)))"

text \<open>
  The course of a pass, in terms of the board \<open>cells\<close> that the pass starts from. The
  call for the cell at \<open>(i, j)\<close> comes after the calls for the rows before \<open>i\<close> and
  for the cells before \<open>j\<close> in row \<open>i\<close>, and after its own assignment to \<open>alive\<close>: at
  those positions the \<open>alive\<close> flag it reads is the \<open>nextState\<close> of \<open>cells\<close>, at all
  others it is still the \<open>alive\<close> flag of \<open>cells\<close>. \<open>counted\<close> is the number of such
  flags set among the eight neighbours, \<open>after\<close> the cell that the call leaves, and
  \<open>stage cells i j\<close> the board when the call for \<open>(i, j)\<close> is about to start.
\<close>

definition seen :: "grid \<Rightarrow> nat \<Rightarrow> nat \<Rightarrow> nat \<times> nat \<Rightarrow> bool" where
  "seen cells i j p =
     (if fst p < i \<or> (fst p = i \<and> snd p \<le> j) then nextState (cells ! fst p ! snd p)
      else alive (cells ! fst p ! snd p))"

definition counted :: "grid \<Rightarrow> nat \<Rightarrow> nat \<Rightarrow> int" where
  "counted cells i j =
     int (length (filter
       (\<lambda>p. seen cells i j (wrapped (length cells) (fst p), wrapped (length (cells ! i)) (snd p)))
       (addArgs (cells ! i ! j))))"

definition after :: "grid \<Rightarrow> nat \<Rightarrow> nat \<Rightarrow> cell" where
  "after cells i j =
     (cells ! i ! j)\<lparr>alive := nextState (cells ! i ! j),
        nextState := (if nextState (cells ! i ! j)
                      then counted cells i j = 2 \<or> counted cells i j = 3
                      else counted cells i j = 3)\<rparr>"

definition stage :: "grid \<Rightarrow> nat \<Rightarrow> nat \<Rightarrow> grid" where
  "stage cells i j =
     map (\<lambda>i'. map (\<lambda>j'. if i' < i \<or> (i' = i \<and> j' < j) then after cells i' j' else cells ! i' ! j')
                  [0..<length (cells ! i')])
         [0..<length cells]"

text \<open>The block: the cells of rows \<open>a\<close>, \<open>a + 1\<close> and columns \<open>b\<close>, \<open>b + 1\<close>.\<close>

definition block :: "nat \<Rightarrow> nat \<Rightarrow> nat \<Rightarrow> nat \<Rightarrow> bool" where
  "block a b i j \<longleftrightarrow> (i = a \<or> i = a + 1) \<and> (j = b \<or> j = b + 1)"

text \<open>What \<open>draw\<close> shows of a board: the \<open>alive\<close> flags.\<close>

definition aliveFlags :: "grid \<Rightarrow> bool list list" where
  "aliveFlags cells = map (map alive) cells"

text \<open>
  The blinker: three live cells in a line, at \<open>(2, 1)\<close>, \<open>(2, 2)\<close> and \<open>(2, 3)\<close>; and the
  board that \<open>makeCells\<close> returns, with the 20 rows and 20 columns of the source, when
  the draws make exactly these cells alive.
\<close>

definition blinker :: "nat \<Rightarrow> nat \<Rightarrow> bool" where
  "blinker i j \<longleftrightarrow> i = 2 \<and> (j = 1 \<or> j = 2 \<or> j = 3)"

definition blinkerBoard :: grid where
  "blinkerBoard = board (\<lambda>a b. 0) 20 20 blinker"

text \<open>
  Four live cells at the corners of a rectangle of two rows and three columns, and the
  board of 20 rows and 20 columns that \<open>makeCells\<close> returns when the draws make
  exactly these cells alive.
\<close>

definition posts :: "nat \<Rightarrow> nat \<Rightarrow> bool" where
  "posts i j \<longleftrightarrow> (i = 5 \<or> i = 6) \<and> (j = 4 \<or> j = 6)"

definition postsBoard :: grid where
  "postsBoard = board (\<lambda>a b. 0) 20 20 posts"

text \<open>
  The program state of the loop of \<open>main\<close> holds, beside the board, the generator of
  the package \<open>math/rand\<close>: the sequence of its values and the number of draws made.
  \<open>rand.Float64\<close> returns the next value and counts the draw.
\<close>

type_synonym gen = "(nat \<Rightarrow> real) \<times> nat"

definition Float64 :: "gen \<Rightarrow> real \<times> gen" where
  "Float64 g = (fst g (snd g), (fst g, Suc (snd g)))"






text \<open>
  The block at rows and columns 12 and 13 together with the four posts, and the board
  of 20 rows and 20 columns that \<open>makeCells\<close> returns when the draws make exactly these
  cells alive.
\<close>

definition blockPosts :: "nat \<Rightarrow> nat \<Rightarrow> bool" where
  "blockPosts i j \<longleftrightarrow> block 12 12 i j \<or> posts i j"

definition blockPostsBoard :: grid where
  "blockPostsBoard = board (\<lambda>a b. 0) 20 20 blockPosts"

section \<open>Basic facts\<close>

lemma length_setCell: "length (setCell cells i j c) = length cells"
  by (simp add: setCell_def)

lemma length_setCell_row: "length (setCell cells i j c ! k) = length (cells ! k)"
  by (cases "i < length cells") (simp_all add: setCell_def nth_list_update list_update_beyond)

lemma nth_setCell:
  "i < length cells \<Longrightarrow> j < length (cells ! i) \<Longrightarrow>
   setCell cells i j c ! i' ! j' = (if i' = i \<and> j' = j then c else cells ! i' ! j')"
  by (simp add: setCell_def nth_list_update)

lemma setCell_setCell: "setCell (setCell cells i j c) i j c' = setCell cells i j c'"
  by (cases "i < length cells") (simp_all add: setCell_def list_update_beyond)

lemma setCell_same:
  "i < length cells \<Longrightarrow> j < length (cells ! i) \<Longrightarrow> c = cells ! i ! j \<Longrightarrow> setCell cells i j c = cells"
  by (simp add: setCell_def)

lemma rect_setCell: "rect R C cells \<Longrightarrow> rect R C (setCell cells i j c)"
  by (simp add: rect_def length_setCell length_setCell_row)

lemma grid_eqI:
  assumes "rect R C A" "rect R C B" "\<And>i j. i < R \<Longrightarrow> j < C \<Longrightarrow> A ! i ! j = B ! i ! j"
  shows "A = B"
proof (rule nth_equalityI)
  show "length A = length B" using assms(1,2) by (simp add: rect_def)
next
  fix i assume "i < length A"
  then have i: "i < R" using assms(1) by (simp add: rect_def)
  show "A ! i = B ! i"
  proof (rule nth_equalityI)
    show "length (A ! i) = length (B ! i)" using assms(1,2) i by (simp add: rect_def)
  next
    fix j assume "j < length (A ! i)"
    then have "j < C" using assms(1) i by (simp add: rect_def)
    with i show "A ! i ! j = B ! i ! j" by (rule assms(3))
  qed
qed

lemma rect_board: "rect R C (board vao R C f)"
  by (simp add: rect_def board_def)

lemma placed_board: "placed (board vao R C f)"
  by (simp add: placed_def board_def mkCell_def)

lemma nth_board:
  "i < R \<Longrightarrow> j < C \<Longrightarrow>
   board vao R C f ! i ! j =
     \<lparr>drawable = vao (int i) (int j), alive = f i j, nextState = f i j, x = int i, y = int j\<rparr>"
  by (simp add: board_def mkCell_def)

lemma board_cong:
  assumes "\<And>i j. i < R \<Longrightarrow> j < C \<Longrightarrow> f i j = g i j"
  shows "board vao R C f = board vao R C g"
  using assms by (simp add: board_def)

lemma placed_setCell:
  assumes "placed cells" "x c = int i" "y c = int j"
  shows "placed (setCell cells i j c)"
  unfolding placed_def
proof (intro allI impI)
  fix i' j' assume a: "i' < length (setCell cells i j c)" "j' < length (setCell cells i j c ! i')"
  then have r: "i' < length cells" "j' < length (cells ! i')"
    by (simp_all add: length_setCell length_setCell_row)
  show "x (setCell cells i j c ! i' ! j') = int i' \<and> y (setCell cells i j c ! i' ! j') = int j'"
  proof (cases "i' = i \<and> j' = j")
    case True
    with r assms(2,3) show ?thesis by (simp add: nth_setCell)
  next
    case False
    then have "setCell cells i j c ! i' ! j' = cells ! i' ! j'"
      using r by (cases "i' = i") (auto simp: setCell_def nth_list_update)
    with assms(1) r show ?thesis by (simp add: placed_def)
  qed
qed

section \<open>The reads of liveNeighbors\<close>

lemma wrapped_less: "0 < n \<Longrightarrow> - 1 \<le> a \<Longrightarrow> a \<le> int n \<Longrightarrow> wrapped n a < n"
  by (auto simp: wrapped_def)

lemma wrapped_id: "0 \<le> a \<Longrightarrow> a < int n \<Longrightarrow> wrapped n a = nat a"
  by (simp add: wrapped_def)


lemma wrapped_distinct:
  assumes "3 \<le> n" "0 \<le> a" "a < int n"
  shows "wrapped n (a - 1) \<noteq> nat a" "wrapped n (a + 1) \<noteq> nat a"
        "wrapped n (a - 1) \<noteq> wrapped n (a + 1)"
  using assms by (auto simp: wrapped_def nat_eq_iff)

lemma add_index_rect:
  assumes "rect R C cells" "0 < R" "0 < C" "- 1 \<le> a" "a \<le> int R" "- 1 \<le> b" "b \<le> int C"
  shows "add_index cells a b = Some (wrapped R a, wrapped C b)"
proof -
  have wa: "wrapped R a < R" and wb: "wrapped C b < C"
    using assms by (simp_all add: wrapped_less)
  from assms wa have len: "length cells = R" "length (cells ! wrapped R a) = C"
    by (auto simp: rect_def)
  define a' where "a' = (if a = int R then 0 else if a = - 1 then int R - 1 else a)"
  define b' where "b' = (if b = int C then 0 else if b = - 1 then int C - 1 else b)"
  have a': "nat a' = wrapped R a" "0 \<le> a'" "a' < int R"
    using assms(2,4,5) by (auto simp: a'_def wrapped_def)
  have b': "nat b' = wrapped C b" "0 \<le> b'" "b' < int C"
    using assms(3,6,7) by (auto simp: b'_def wrapped_def)
  have l: "length (cells ! nat a') = C" using a'(1) len(2) by simp
  show ?thesis
    unfolding add_index_def Let_def len(1) a'_def [symmetric] l b'_def [symmetric]
    using a' b' by simp
qed

lemma addAll_count:
  assumes "\<forall>p \<in> set ps. add_index cells (fst p) (snd p) = Some (g p)"
  shows "addAll cells ps n =
           Some (n + int (length (filter (\<lambda>p. alive (cells ! fst (g p) ! snd (g p))) ps)))"
  using assms by (induction ps arbitrary: n) (simp_all add: add_def)

lemma addAll_bounds:
  "addAll cells ps n = Some m \<Longrightarrow> n \<le> m \<and> m \<le> n + int (length ps)"
proof (induction ps arbitrary: n)
  case Nil
  then show ?case by simp
next
  case (Cons p ps)
  then obtain k where k: "add cells (fst p) (snd p) n = Some k" "addAll cells ps k = Some m"
    by (auto split: option.splits)
  from k(1) have "n \<le> k \<and> k \<le> n + 1"
    by (auto simp: add_def split: option.splits if_splits)
  with Cons.IH [OF k(2)] show ?case by simp
qed

lemma liveNeighbors_bounds: "liveNeighbors c cells = Some n \<Longrightarrow> 0 \<le> n \<and> n \<le> 8"
  using addAll_bounds [of cells "addArgs c" 0 n] by (simp add: liveNeighbors_def addArgs_def)

lemma addArgs_range:
  assumes "0 \<le> x c" "x c < int R" "0 \<le> y c" "y c < int C" "p \<in> set (addArgs c)"
  shows "- 1 \<le> fst p \<and> fst p \<le> int R \<and> - 1 \<le> snd p \<and> snd p \<le> int C"
  using assms by (auto simp: addArgs_def)

lemma examined_rect:
  assumes "rect R C cells" "0 < R" "0 < C" "0 \<le> x c" "x c < int R" "0 \<le> y c" "y c < int C"
  shows "examined c cells = map (\<lambda>p. Some (wrapped R (fst p), wrapped C (snd p))) (addArgs c)"
  unfolding examined_def
proof (rule map_cong [OF refl])
  fix p assume "p \<in> set (addArgs c)"
  from addArgs_range [OF assms(4-7) this] show "add_index cells (fst p) (snd p) = Some (wrapped R (fst p), wrapped C (snd p))"
    using add_index_rect [OF assms(1-3)] by simp
qed

lemma liveNeighbors_rect:
  assumes "rect R C cells" "0 < R" "0 < C" "0 \<le> x c" "x c < int R" "0 \<le> y c" "y c < int C"
  shows "liveNeighbors c cells =
     Some (int (length (filter (\<lambda>p. alive (cells ! wrapped R (fst p) ! wrapped C (snd p))) (addArgs c))))"
proof -
  have "\<forall>p \<in> set (addArgs c). add_index cells (fst p) (snd p) = Some (wrapped R (fst p), wrapped C (snd p))"
    using addArgs_range [OF assms(4-7)] add_index_rect [OF assms(1-3)] by simp
  from addAll_count [where g = "\<lambda>p. (wrapped R (fst p), wrapped C (snd p))", OF this, of 0]
  show ?thesis by (simp add: liveNeighbors_def)
qed

lemma count8:
  "int (length (filter P [p1, p2, p3, p4, p5, p6, p7, p8])) =
     of_bool (P p1) + of_bool (P p2) + of_bool (P p3) + of_bool (P p4) +
     of_bool (P p5) + of_bool (P p6) + of_bool (P p7) + of_bool (P p8)"
  by simp

lemma liveNeighbors_eq:
  assumes "rect R C cells" "placed cells" "i < R" "j < C"
  shows "liveNeighbors (cells ! i ! j) cells = Some (
     of_bool (alive (cells ! wrapped R (int i - 1) ! wrapped C (int j))) +
     of_bool (alive (cells ! wrapped R (int i + 1) ! wrapped C (int j))) +
     of_bool (alive (cells ! wrapped R (int i) ! wrapped C (int j + 1))) +
     of_bool (alive (cells ! wrapped R (int i) ! wrapped C (int j - 1))) +
     of_bool (alive (cells ! wrapped R (int i - 1) ! wrapped C (int j + 1))) +
     of_bool (alive (cells ! wrapped R (int i + 1) ! wrapped C (int j + 1))) +
     of_bool (alive (cells ! wrapped R (int i - 1) ! wrapped C (int j - 1))) +
     of_bool (alive (cells ! wrapped R (int i + 1) ! wrapped C (int j - 1))))"
proof -
  from assms have xy: "x (cells ! i ! j) = int i" "y (cells ! i ! j) = int j"
    by (simp_all add: placed_def rect_def)
  have "liveNeighbors (cells ! i ! j) cells =
     Some (int (length (filter (\<lambda>p. alive (cells ! wrapped R (fst p) ! wrapped C (snd p)))
        (addArgs (cells ! i ! j)))))"
    using assms(1,3,4) xy by (intro liveNeighbors_rect) simp_all
  then show ?thesis
    by (simp only: addArgs_def xy count8 fst_conv snd_conv)
qed

lemma liveNeighbors_board:
  assumes "i < R" "j < C"
  shows "liveNeighbors (board vao R C f ! i ! j) (board vao R C f) =
     Some (int (length (filter (\<lambda>p. f (wrapped R (fst p)) (wrapped C (snd p)))
        [(int i - 1, int j), (int i + 1, int j), (int i, int j + 1), (int i, int j - 1),
         (int i - 1, int j + 1), (int i + 1, int j + 1), (int i - 1, int j - 1),
         (int i + 1, int j - 1)])))"
proof -
  let ?B = "board vao R C f"
  let ?c = "?B ! i ! j"
  have xy: "x ?c = int i" "y ?c = int j" using assms by (simp_all add: nth_board)
  have a: "addArgs ?c = [(int i - 1, int j), (int i + 1, int j), (int i, int j + 1), (int i, int j - 1),
         (int i - 1, int j + 1), (int i + 1, int j + 1), (int i - 1, int j - 1),
         (int i + 1, int j - 1)]"
    by (simp add: addArgs_def xy)
  have "liveNeighbors ?c ?B =
     Some (int (length (filter (\<lambda>p. alive (?B ! wrapped R (fst p) ! wrapped C (snd p))) (addArgs ?c))))"
    using assms xy by (intro liveNeighbors_rect rect_board) simp_all
  also have "filter (\<lambda>p. alive (?B ! wrapped R (fst p) ! wrapped C (snd p))) (addArgs ?c) =
             filter (\<lambda>p. f (wrapped R (fst p)) (wrapped C (snd p))) (addArgs ?c)"
  proof (rule filter_cong [OF refl])
    fix p assume "p \<in> set (addArgs ?c)"
    then have "- 1 \<le> fst p \<and> fst p \<le> int R \<and> - 1 \<le> snd p \<and> snd p \<le> int C"
      using xy assms by (intro addArgs_range [of ?c]) simp_all
    then have "wrapped R (fst p) < R" "wrapped C (snd p) < C"
      using assms by (simp_all add: wrapped_less)
    then show "alive (?B ! wrapped R (fst p) ! wrapped C (snd p)) =
               f (wrapped R (fst p)) (wrapped C (snd p))"
      by (simp add: nth_board)
  qed
  finally show ?thesis by (simp only: a)
qed

section \<open>The neighbourhood on the torus\<close>



text \<open>
  Claim C10. On a board with at least three rows and three columns, the eight positions
  read for a cell in range are pairwise distinct and none of them is the cell's own
  position. On a smaller board this fails: on the board of one cell, all eight reads are
  of the cell itself, and a live cell counts itself eight times.
\<close>

theorem examined_distinct:
  "(rect R C cells \<and> 3 \<le> R \<and> 3 \<le> C \<and> 0 \<le> x c \<and> x c < int R \<and> 0 \<le> y c \<and> y c < int C \<longrightarrow>
      distinct (examined c cells) \<and> Some (nat (x c), nat (y c)) \<notin> set (examined c cells)) \<and>
   examined (board (\<lambda>a b. 0) 1 1 (\<lambda>i j. True) ! 0 ! 0) (board (\<lambda>a b. 0) 1 1 (\<lambda>i j. True)) =
     replicate 8 (Some (0, 0)) \<and>
   \<not> distinct (examined (board (\<lambda>a b. 0) 1 1 (\<lambda>i j. True) ! 0 ! 0)
                 (board (\<lambda>a b. 0) 1 1 (\<lambda>i j. True))) \<and>
   liveNeighbors (board (\<lambda>a b. 0) 1 1 (\<lambda>i j. True) ! 0 ! 0) (board (\<lambda>a b. 0) 1 1 (\<lambda>i j. True)) = Some 8"
proof (intro conjI impI)
  assume a: "rect R C cells \<and> 3 \<le> R \<and> 3 \<le> C \<and> 0 \<le> x c \<and> x c < int R \<and> 0 \<le> y c \<and> y c < int C"
  then have ex: "examined c cells = map (\<lambda>p. Some (wrapped R (fst p), wrapped C (snd p))) (addArgs c)"
    by (intro examined_rect) auto
  from a have dx: "wrapped R (x c - 1) \<noteq> nat (x c)" "wrapped R (x c + 1) \<noteq> nat (x c)"
        "wrapped R (x c - 1) \<noteq> wrapped R (x c + 1)" "wrapped R (x c) = nat (x c)"
    by (simp_all add: wrapped_distinct wrapped_id)
  from a have dy: "wrapped C (y c - 1) \<noteq> nat (y c)" "wrapped C (y c + 1) \<noteq> nat (y c)"
        "wrapped C (y c - 1) \<noteq> wrapped C (y c + 1)" "wrapped C (y c) = nat (y c)"
    by (simp_all add: wrapped_distinct wrapped_id)
  note d = dx dy dx(1-3) [symmetric] dy(1-3) [symmetric]
  show "distinct (examined c cells)"
    unfolding ex addArgs_def using d by simp
  show "Some (nat (x c), nat (y c)) \<notin> set (examined c cells)"
    unfolding ex addArgs_def using d by simp
next
  show e: "examined (board (\<lambda>a b. 0) 1 1 (\<lambda>i j. True) ! 0 ! 0) (board (\<lambda>a b. 0) 1 1 (\<lambda>i j. True)) =
     replicate 8 (Some (0, 0))"
    by (simp add: examined_def addArgs_def add_index_def board_def mkCell_def numeral_eq_Suc)
  show "\<not> distinct (examined (board (\<lambda>a b. 0) 1 1 (\<lambda>i j. True) ! 0 ! 0)
                 (board (\<lambda>a b. 0) 1 1 (\<lambda>i j. True)))"
    unfolding e by (simp add: numeral_eq_Suc)
  show "liveNeighbors (board (\<lambda>a b. 0) 1 1 (\<lambda>i j. True) ! 0 ! 0) (board (\<lambda>a b. 0) 1 1 (\<lambda>i j. True)) = Some 8"
    by (simp add: liveNeighbors_def addArgs_def add_def add_index_def board_def mkCell_def)
qed

theorem examined_distinct_witness:
  "rect 3 3 (board (\<lambda>a b. 0) 3 3 (\<lambda>i j. i = j)) \<and> (3::nat) \<le> 3 \<and> (3::nat) \<le> 3 \<and>
   0 \<le> x (board (\<lambda>a b. 0) 3 3 (\<lambda>i j. i = j) ! 1 ! 1) \<and>
   x (board (\<lambda>a b. 0) 3 3 (\<lambda>i j. i = j) ! 1 ! 1) < int 3 \<and>
   0 \<le> y (board (\<lambda>a b. 0) 3 3 (\<lambda>i j. i = j) ! 1 ! 1) \<and>
   y (board (\<lambda>a b. 0) 3 3 (\<lambda>i j. i = j) ! 1 ! 1) < int 3 \<and>
   distinct (examined (board (\<lambda>a b. 0) 3 3 (\<lambda>i j. i = j) ! 1 ! 1)
               (board (\<lambda>a b. 0) 3 3 (\<lambda>i j. i = j)))"
proof -
  let ?B = "board (\<lambda>a b. 0) 3 3 (\<lambda>i j. i = j)"
  have h: "rect 3 3 ?B \<and> (3::nat) \<le> 3 \<and> (3::nat) \<le> 3 \<and>
      0 \<le> x (?B ! 1 ! 1) \<and> x (?B ! 1 ! 1) < int 3 \<and> 0 \<le> y (?B ! 1 ! 1) \<and> y (?B ! 1 ! 1) < int 3"
    by (simp add: rect_board nth_board)
  note t = examined_distinct [of 3 3 ?B "?B ! 1 ! 1", THEN conjunct1, THEN mp, OF h, THEN conjunct1]
  from h t show ?thesis by (elim conjE) (intro conjI)
qed

section \<open>The rule of checkState\<close>

text \<open>What a call of \<open>checkState\<close> that returns has done.\<close>

lemma checkState_Some:
  assumes "checkState cells i j = Some cells'"
  shows "i < length cells \<and> j < length (cells ! i) \<and>
         (\<exists>n. liveNeighbors ((cells ! i ! j)\<lparr>alive := nextState (cells ! i ! j)\<rparr>)
                 (setCell cells i j ((cells ! i ! j)\<lparr>alive := nextState (cells ! i ! j)\<rparr>)) = Some n \<and>
               cells' = setCell cells i j
                 ((cells ! i ! j)\<lparr>alive := nextState (cells ! i ! j),
                    nextState := (if nextState (cells ! i ! j) then n = 2 \<or> n = 3 else n = 3)\<rparr>))"
proof -
  from assms have r: "i < length cells" "j < length (cells ! i)"
    by (auto simp: checkState_def split: if_splits)
  let ?c = "(cells ! i ! j)\<lparr>alive := nextState (cells ! i ! j)\<rparr>"
  have c: "?c\<lparr>nextState := alive ?c\<rparr> = ?c" by simp
  from assms r obtain n where n: "liveNeighbors ?c (setCell cells i j ?c) = Some n"
    by (auto simp: checkState_def Let_def split: option.splits)
  from assms r n have "cells' = setCell cells i j
      (?c\<lparr>nextState := (if nextState (cells ! i ! j) then n = 2 \<or> n = 3 else n = 3)\<rparr>)"
    by (auto simp: checkState_def Let_def setCell_setCell)
  with r n show ?thesis by auto
qed

lemma checkState_eq:
  assumes "i < length cells" "j < length (cells ! i)"
    and "liveNeighbors ((cells ! i ! j)\<lparr>alive := nextState (cells ! i ! j)\<rparr>)
           (setCell cells i j ((cells ! i ! j)\<lparr>alive := nextState (cells ! i ! j)\<rparr>)) = Some n"
  shows "checkState cells i j =
           Some (setCell cells i j
             ((cells ! i ! j)\<lparr>alive := nextState (cells ! i ! j),
                nextState := (if nextState (cells ! i ! j) then n = 2 \<or> n = 3 else n = 3)\<rparr>))"
proof -
  let ?c = "(cells ! i ! j)\<lparr>alive := nextState (cells ! i ! j)\<rparr>"
  have c: "?c\<lparr>nextState := alive ?c\<rparr> = ?c" by simp
  show ?thesis
    using assms by (auto simp: checkState_def Let_def setCell_setCell)
qed

lemma checkState_frame:
  assumes "checkState cells i j = Some cells'"
  shows "length cells' = length cells"
    and "length (cells' ! k) = length (cells ! k)"
    and "(i', j') \<noteq> (i, j) \<Longrightarrow> cells' ! i' ! j' = cells ! i' ! j'"
    and "alive (cells' ! i ! j) = nextState (cells ! i ! j)"
proof -
  from checkState_Some [OF assms] obtain c where
    r: "i < length cells" "j < length (cells ! i)" and
    c: "cells' = setCell cells i j c" "alive c = nextState (cells ! i ! j)"
    by auto
  show "length cells' = length cells" by (simp add: c length_setCell)
  show "length (cells' ! k) = length (cells ! k)" by (simp add: c length_setCell_row)
  show "(i', j') \<noteq> (i, j) \<Longrightarrow> cells' ! i' ! j' = cells ! i' ! j'"
    using r by (auto simp: c nth_setCell)
  show "alive (cells' ! i ! j) = nextState (cells ! i ! j)"
    using r by (simp add: c nth_setCell)
qed

lemma checkState_panics:
  assumes "liveNeighbors ((cells ! i ! j)\<lparr>alive := nextState (cells ! i ! j)\<rparr>)
           (setCell cells i j ((cells ! i ! j)\<lparr>alive := nextState (cells ! i ! j)\<rparr>)) = None"
  shows "checkState cells i j = None"
proof -
  let ?c = "(cells ! i ! j)\<lparr>alive := nextState (cells ! i ! j)\<rparr>"
  have c: "?c\<lparr>nextState := alive ?c\<rparr> = ?c" by simp
  show ?thesis
    using assms by (simp add: checkState_def Let_def)
qed

lemma checkState_counts:
  assumes "rect R C cells" "i < R" "j < C"
    and "0 \<le> x (cells ! i ! j)" "x (cells ! i ! j) < int R"
    and "0 \<le> y (cells ! i ! j)" "y (cells ! i ! j) < int C"
  shows "liveNeighbors ((cells ! i ! j)\<lparr>alive := nextState (cells ! i ! j)\<rparr>)
           (setCell cells i j ((cells ! i ! j)\<lparr>alive := nextState (cells ! i ! j)\<rparr>)) \<noteq> None"
proof -
  let ?c = "(cells ! i ! j)\<lparr>alive := nextState (cells ! i ! j)\<rparr>"
  have "rect R C (setCell cells i j ?c)" using assms(1) by (rule rect_setCell)
  from liveNeighbors_rect [OF this, of ?c] assms(2-) show ?thesis by simp
qed

text \<open>
  Claim C2. A call of \<open>checkState\<close> for a cell of the board returns whenever its count
  of live neighbours does, panics when the count panics, and the count returns on
  every rectangular board for a cell whose coordinates are in range. When the count is
  \<open>n\<close>, then \<open>0 \<le> n \<le> 8\<close> and the call leaves the board with this one cell
  changed: its \<open>alive\<close> flag is the flag that the rule has tested, and its \<open>nextState\<close>
  follows the table B3/S23 for that flag and \<open>n\<close>: a live cell is dead in \<open>nextState\<close>
  when \<open>n < 2\<close> or \<open>n > 3\<close> and alive when \<open>n\<close> is 2 or 3; a dead cell is alive in
  \<open>nextState\<close> if and only if \<open>n = 3\<close>.
\<close>

theorem checkState_rule:
  assumes "i < length cells" "j < length (cells ! i)"
  shows "(\<forall>n. liveNeighbors ((cells ! i ! j)\<lparr>alive := nextState (cells ! i ! j)\<rparr>)
               (setCell cells i j ((cells ! i ! j)\<lparr>alive := nextState (cells ! i ! j)\<rparr>)) = Some n \<longrightarrow>
            0 \<le> n \<and> n \<le> 8 \<and>
            checkState cells i j =
              Some (setCell cells i j
                ((cells ! i ! j)\<lparr>alive := nextState (cells ! i ! j),
                   nextState := (if nextState (cells ! i ! j) then n = 2 \<or> n = 3 else n = 3)\<rparr>)) \<and>
            alive (the (checkState cells i j) ! i ! j) = nextState (cells ! i ! j) \<and>
            (alive (the (checkState cells i j) ! i ! j) \<and> (n < 2 \<or> 3 < n) \<longrightarrow>
               \<not> nextState (the (checkState cells i j) ! i ! j)) \<and>
            (alive (the (checkState cells i j) ! i ! j) \<and> (n = 2 \<or> n = 3) \<longrightarrow>
               nextState (the (checkState cells i j) ! i ! j)) \<and>
            (\<not> alive (the (checkState cells i j) ! i ! j) \<longrightarrow>
               (nextState (the (checkState cells i j) ! i ! j) \<longleftrightarrow> n = 3))) \<and>
         (liveNeighbors ((cells ! i ! j)\<lparr>alive := nextState (cells ! i ! j)\<rparr>)
               (setCell cells i j ((cells ! i ! j)\<lparr>alive := nextState (cells ! i ! j)\<rparr>)) = None \<longrightarrow>
            checkState cells i j = None) \<and>
         (rect R C cells \<and> 0 \<le> x (cells ! i ! j) \<and> x (cells ! i ! j) < int R \<and>
            0 \<le> y (cells ! i ! j) \<and> y (cells ! i ! j) < int C \<longrightarrow>
            checkState cells i j \<noteq> None)"
proof (intro conjI allI impI)
  fix n
  assume n: "liveNeighbors ((cells ! i ! j)\<lparr>alive := nextState (cells ! i ! j)\<rparr>)
               (setCell cells i j ((cells ! i ! j)\<lparr>alive := nextState (cells ! i ! j)\<rparr>)) = Some n"
  from liveNeighbors_bounds [OF n] show "0 \<le> n" "n \<le> 8" by simp_all
  show e: "checkState cells i j =
              Some (setCell cells i j
                ((cells ! i ! j)\<lparr>alive := nextState (cells ! i ! j),
                   nextState := (if nextState (cells ! i ! j) then n = 2 \<or> n = 3 else n = 3)\<rparr>))"
    using assms n by (rule checkState_eq)
  have r: "the (checkState cells i j) ! i ! j =
      (cells ! i ! j)\<lparr>alive := nextState (cells ! i ! j),
         nextState := (if nextState (cells ! i ! j) then n = 2 \<or> n = 3 else n = 3)\<rparr>"
    using assms by (simp add: e nth_setCell)
  show "alive (the (checkState cells i j) ! i ! j) = nextState (cells ! i ! j)"
    by (simp add: r)
  show "\<not> nextState (the (checkState cells i j) ! i ! j)"
    if "alive (the (checkState cells i j) ! i ! j) \<and> (n < 2 \<or> 3 < n)"
    using that by (auto simp: r)
  show "nextState (the (checkState cells i j) ! i ! j)"
    if "alive (the (checkState cells i j) ! i ! j) \<and> (n = 2 \<or> n = 3)"
    using that by (auto simp: r)
  show "nextState (the (checkState cells i j) ! i ! j) \<longleftrightarrow> n = 3"
    if "\<not> alive (the (checkState cells i j) ! i ! j)"
    using that by (auto simp: r)
next
  assume "liveNeighbors ((cells ! i ! j)\<lparr>alive := nextState (cells ! i ! j)\<rparr>)
               (setCell cells i j ((cells ! i ! j)\<lparr>alive := nextState (cells ! i ! j)\<rparr>)) = None"
  then show "checkState cells i j = None" by (rule checkState_panics)
next
  assume a: "rect R C cells \<and> 0 \<le> x (cells ! i ! j) \<and> x (cells ! i ! j) < int R \<and>
            0 \<le> y (cells ! i ! j) \<and> y (cells ! i ! j) < int C"
  with assms have r: "i < R" "j < C" by (simp_all add: rect_def)
  from a r have "liveNeighbors ((cells ! i ! j)\<lparr>alive := nextState (cells ! i ! j)\<rparr>)
           (setCell cells i j ((cells ! i ! j)\<lparr>alive := nextState (cells ! i ! j)\<rparr>)) \<noteq> None"
    by (intro checkState_counts [of R C]) simp_all
  then obtain n where "liveNeighbors ((cells ! i ! j)\<lparr>alive := nextState (cells ! i ! j)\<rparr>)
           (setCell cells i j ((cells ! i ! j)\<lparr>alive := nextState (cells ! i ! j)\<rparr>)) = Some n"
    by auto
  from checkState_eq [OF assms this] show "checkState cells i j \<noteq> None" by simp
qed

theorem checkState_rule_witness:
  "(1::nat) < length (board (\<lambda>a b. 0) 5 5 blinker) \<and>
   (2::nat) < length (board (\<lambda>a b. 0) 5 5 blinker ! 1) \<and>
   alive (board (\<lambda>a b. 0) 5 5 blinker ! 1 ! 2) = False \<and>
   nextState (board (\<lambda>a b. 0) 5 5 blinker ! 1 ! 2) = False \<and>
   liveNeighbors ((board (\<lambda>a b. 0) 5 5 blinker ! 1 ! 2)
                    \<lparr>alive := nextState (board (\<lambda>a b. 0) 5 5 blinker ! 1 ! 2)\<rparr>)
     (setCell (board (\<lambda>a b. 0) 5 5 blinker) 1 2
        ((board (\<lambda>a b. 0) 5 5 blinker ! 1 ! 2)
           \<lparr>alive := nextState (board (\<lambda>a b. 0) 5 5 blinker ! 1 ! 2)\<rparr>)) = Some 3 \<and>
   checkState (board (\<lambda>a b. 0) 5 5 blinker) 1 2 =
     Some (setCell (board (\<lambda>a b. 0) 5 5 blinker) 1 2
       ((board (\<lambda>a b. 0) 5 5 blinker ! 1 ! 2)\<lparr>alive := False, nextState := True\<rparr>)) \<and>
   nextState (the (checkState (board (\<lambda>a b. 0) 5 5 blinker) 1 2) ! 1 ! 2) = True"
proof -
  let ?B = "board (\<lambda>a b. 0) 5 5 blinker"
  let ?c = "(?B ! 1 ! 2)\<lparr>alive := nextState (?B ! 1 ! 2)\<rparr>"
  have h: "(1::nat) < length ?B" "(2::nat) < length (?B ! 1)" by (simp_all add: board_def)
  have f: "alive (?B ! 1 ! 2) = False" "nextState (?B ! 1 ! 2) = False"
    by (simp_all add: nth_board blinker_def)
  have l: "liveNeighbors ?c (setCell ?B 1 2 ?c) = Some 3" by code_simp
  note t = checkState_rule [OF h, THEN conjunct1, rule_format, OF l]
  note e = t [THEN conjunct2, THEN conjunct2, THEN conjunct1]
  note ar = t [THEN conjunct2, THEN conjunct2, THEN conjunct2, THEN conjunct1]
  note dead = t [THEN conjunct2, THEN conjunct2, THEN conjunct2, THEN conjunct2,
      THEN conjunct2, THEN conjunct2]
  from e have e': "checkState ?B 1 2 =
     Some (setCell ?B 1 2 ((?B ! 1 ! 2)\<lparr>alive := False, nextState := True\<rparr>))"
    unfolding f(2) by simp
  have d: "\<not> alive (the (checkState ?B 1 2) ! 1 ! 2)"
    unfolding ar f(2) by simp
  from dead [THEN mp, OF d] have n: "nextState (the (checkState ?B 1 2) ! 1 ! 2) = True"
    by simp
  from h f l e' n show ?thesis by (intro conjI)
qed

section \<open>The calls of a pass\<close>

lemma checkRow_frame:
  assumes "checkRow cells i js = Some cells'" "distinct js"
  shows "length cells' = length cells \<and>
         (\<forall>k. length (cells' ! k) = length (cells ! k)) \<and>
         (\<forall>i' j'. i' \<noteq> i \<or> j' \<notin> set js \<longrightarrow> cells' ! i' ! j' = cells ! i' ! j') \<and>
         (\<forall>j \<in> set js. alive (cells' ! i ! j) = nextState (cells ! i ! j))"
  using assms
proof (induction js arbitrary: cells)
  case Nil
  then show ?case by simp
next
  case (Cons j js)
  then obtain m where m: "checkState cells i j = Some m" "checkRow m i js = Some cells'"
    by (auto split: option.splits)
  from Cons.prems(2) have d: "j \<notin> set js" "distinct js" by simp_all
  note f = checkState_frame [OF m(1)]
  note ih = Cons.IH [OF m(2) d(2)]
  have 1: "length cells' = length cells" using ih f(1) by simp
  have 2: "\<forall>k. length (cells' ! k) = length (cells ! k)" using ih f(2) by simp
  have 3: "\<forall>i' j'. i' \<noteq> i \<or> j' \<notin> set (j # js) \<longrightarrow> cells' ! i' ! j' = cells ! i' ! j'"
  proof (intro allI impI)
    fix i' j' assume a: "i' \<noteq> i \<or> j' \<notin> set (j # js)"
    then have "cells' ! i' ! j' = m ! i' ! j'" using ih by auto
    also from a have "\<dots> = cells ! i' ! j'" by (intro f(3)) auto
    finally show "cells' ! i' ! j' = cells ! i' ! j'" .
  qed
  have 4: "\<forall>j' \<in> set (j # js). alive (cells' ! i ! j') = nextState (cells ! i ! j')"
  proof
    fix j' assume a: "j' \<in> set (j # js)"
    show "alive (cells' ! i ! j') = nextState (cells ! i ! j')"
    proof (cases "j' = j")
      case True
      with d(1) have "cells' ! i ! j' = m ! i ! j" using ih by auto
      with f(4) show ?thesis by (simp add: True)
    next
      case False
      with a have "j' \<in> set js" by simp
      then have "alive (cells' ! i ! j') = nextState (m ! i ! j')" using ih by auto
      also from False have "m ! i ! j' = cells ! i ! j'" by (intro f(3)) auto
      finally show ?thesis .
    qed
  qed
  from 1 2 3 4 show ?case by blast
qed

lemma checkRows_frame:
  assumes "checkRows cells is = Some cells'" "distinct is"
  shows "length cells' = length cells \<and>
         (\<forall>k. length (cells' ! k) = length (cells ! k)) \<and>
         (\<forall>i' j'. i' \<notin> set is \<longrightarrow> cells' ! i' ! j' = cells ! i' ! j') \<and>
         (\<forall>i \<in> set is. \<forall>j < length (cells ! i). alive (cells' ! i ! j) = nextState (cells ! i ! j))"
  using assms
proof (induction "is" arbitrary: cells)
  case Nil
  then show ?case by simp
next
  case (Cons i "is")
  then obtain m where m: "checkRow cells i [0..<length (cells ! i)] = Some m"
      "checkRows m is = Some cells'"
    by (auto split: option.splits)
  from Cons.prems(2) have d: "i \<notin> set is" "distinct is" by simp_all
  from checkRow_frame [OF m(1)] have f:
    "length m = length cells" "\<forall>k. length (m ! k) = length (cells ! k)"
    "\<forall>i' j'. i' \<noteq> i \<or> j' \<notin> set [0..<length (cells ! i)] \<longrightarrow> m ! i' ! j' = cells ! i' ! j'"
    "\<forall>j \<in> set [0..<length (cells ! i)]. alive (m ! i ! j) = nextState (cells ! i ! j)"
    by simp_all
  note ih = Cons.IH [OF m(2) d(2)]
  have 1: "length cells' = length cells" using ih f(1) by simp
  have 2: "\<forall>k. length (cells' ! k) = length (cells ! k)" using ih f(2) by simp
  have 3: "\<forall>i' j'. i' \<notin> set (i # is) \<longrightarrow> cells' ! i' ! j' = cells ! i' ! j'"
    using ih f(3) by auto
  have 4: "\<forall>i' \<in> set (i # is). \<forall>j < length (cells ! i').
             alive (cells' ! i' ! j) = nextState (cells ! i' ! j)"
  proof (intro ballI allI impI)
    fix i' j assume a: "i' \<in> set (i # is)" "j < length (cells ! i')"
    show "alive (cells' ! i' ! j) = nextState (cells ! i' ! j)"
    proof (cases "i' = i")
      case True
      with d(1) have "cells' ! i' ! j = m ! i ! j" using ih by auto
      moreover from a(2) True have "alive (m ! i ! j) = nextState (cells ! i ! j)"
        using f(4) by simp
      ultimately show ?thesis by (simp add: True)
    next
      case False
      with a have "i' \<in> set is" "j < length (m ! i')" using f(2) by simp_all
      then have "alive (cells' ! i' ! j) = nextState (m ! i' ! j)" using ih by blast
      also from False have "m ! i' ! j = cells ! i' ! j" using f(3) by simp
      finally show ?thesis .
    qed
  qed
  from 1 2 3 4 show ?case by blast
qed

lemma pass_frame:
  assumes "pass cells = Some cells'"
  shows "length cells' = length cells"
    and "length (cells' ! k) = length (cells ! k)"
    and "i < length cells \<Longrightarrow> j < length (cells ! i) \<Longrightarrow>
         alive (cells' ! i ! j) = nextState (cells ! i ! j)"
  using checkRows_frame [of cells "[0..<length cells]" cells'] assms
  by (simp_all add: pass_def)

section \<open>Initialisation\<close>

lemma makeRow_eq:
  "makeRow vao th rnd a bs (row, k) =
     (row @ map (\<lambda>p. mkCell vao a (fst p) (rnd (snd p) < th)) (zip bs [k..<k + length bs]),
      k + length bs)"
proof (induction bs arbitrary: row k)
  case Nil
  then show ?case by simp
next
  case (Cons b bs)
  have "[k..<k + length (b # bs)] = k # [Suc k..<Suc k + length bs]"
    by (subst upt_rec) simp
  then show ?case
    by (simp add: Cons.IH newCell_def mkCell_def)
qed

lemma zip_upt: "zip [0..<n] [k..<k + n] = map (\<lambda>j. (j, k + j)) [0..<n]"
  by (rule nth_equalityI) simp_all

lemma makeRow_upt:
  "makeRow vao th rnd a [0..<C] ([], k) =
     (map (\<lambda>j. mkCell vao a j (rnd (k + j) < th)) [0..<C], k + C)"
  using makeRow_eq [of vao th rnd a "[0..<C]" "[]" k] by (simp add: zip_upt comp_def)

lemma makeRows_eq:
  assumes "distinct as" "\<forall>a \<in> set as. a < length cells \<and> cells ! a = []"
    and "makeRows vao C th rnd as (cells, k) = (cells', k')"
  shows "length cells' = length cells \<and> k' = k + length as * C \<and>
         (\<forall>a. a \<notin> set as \<longrightarrow> cells' ! a = cells ! a) \<and>
         (\<forall>p < length as. cells' ! (as ! p) =
            map (\<lambda>j. mkCell vao (as ! p) j (rnd (k + p * C + j) < th)) [0..<C])"
  using assms
proof (induction as arbitrary: cells k)
  case Nil
  then show ?case by simp
next
  case (Cons a as)
  let ?row = "map (\<lambda>j. mkCell vao a j (rnd (k + j) < th)) [0..<C]"
  from Cons.prems(2) have a: "a < length cells" "cells ! a = []" by simp_all
  from Cons.prems(1) have d: "a \<notin> set as" "distinct as" by simp_all
  have m: "makeRows vao C th rnd as (cells[a := ?row], k + C) = (cells', k')"
    using Cons.prems(3) a by (simp add: makeRow_upt)
  have e: "\<forall>b \<in> set as. b < length (cells[a := ?row]) \<and> cells[a := ?row] ! b = []"
    using Cons.prems(2) d(1) by (auto simp: nth_list_update)
  note ih = Cons.IH [OF d(2) e m]
  have 1: "length cells' = length cells" using ih by simp
  have 2: "k' = k + length (a # as) * C" using ih by simp
  have 3: "\<forall>b. b \<notin> set (a # as) \<longrightarrow> cells' ! b = cells ! b" using ih by auto
  have 4: "\<forall>p < length (a # as). cells' ! ((a # as) ! p) =
            map (\<lambda>j. mkCell vao ((a # as) ! p) j (rnd (k + p * C + j) < th)) [0..<C]"
  proof (intro allI impI)
    fix p assume p: "p < length (a # as)"
    show "cells' ! ((a # as) ! p) =
            map (\<lambda>j. mkCell vao ((a # as) ! p) j (rnd (k + p * C + j) < th)) [0..<C]"
    proof (cases p)
      case 0
      from d(1) ih have "cells' ! a = cells[a := ?row] ! a" by blast
      with a(1) show ?thesis by (simp add: 0)
    next
      case (Suc q)
      with p have "q < length as" by simp
      with ih have "cells' ! (as ! q) =
          map (\<lambda>j. mkCell vao (as ! q) j (rnd (k + C + q * C + j) < th)) [0..<C]" by blast
      then show ?thesis by (simp add: Suc add.assoc)
    qed
  qed
  from 1 2 3 4 show ?case by blast
qed

lemma makeCells_board:
  "makeCells vao R C th rnd = board vao R C (\<lambda>i j. rnd (i * C + j) < th)"
proof -
  obtain cells' k' where m: "makeRows vao C th rnd [0..<R] (replicate R [], 0) = (cells', k')"
    by (cases "makeRows vao C th rnd [0..<R] (replicate R [], 0)")
  have "distinct [0..<R]" "\<forall>a \<in> set [0..<R]. a < length (replicate R ([]::cell list)) \<and> replicate R [] ! a = ([]::cell list)"
    by simp_all
  from makeRows_eq [OF this m] have l: "length cells' = R"
    and r: "\<forall>p < R. cells' ! p = map (\<lambda>j. mkCell vao p j (rnd (p * C + j) < th)) [0..<C]"
    by simp_all
  have "cells' = board vao R C (\<lambda>i j. rnd (i * C + j) < th)"
    by (rule nth_equalityI) (simp_all add: l r board_def mkCell_def)
  with m show ?thesis by (simp add: makeCells_def)
qed

text \<open>
  Claim C7. \<open>makeCells\<close> returns a board of \<open>rows\<close> rows of \<open>columns\<close> cells. The cell
  at \<open>(i, j)\<close> gets a draw of its own, and is alive if and only if that draw is
  strictly smaller than the threshold; its \<open>nextState\<close> equals its \<open>alive\<close> flag. With
  draws in \<open>[0, 1)\<close>, the threshold 0 makes every cell dead and the threshold 1 makes
  every cell alive.
\<close>

theorem makeCells_flags:
  assumes "i < rows" "j < columns"
  shows "length (makeCells vao rows columns threshold rnd) = rows \<and>
         length (makeCells vao rows columns threshold rnd ! i) = columns \<and>
         alive (makeCells vao rows columns threshold rnd ! i ! j) = (rnd (i * columns + j) < threshold) \<and>
         nextState (makeCells vao rows columns threshold rnd ! i ! j) =
           alive (makeCells vao rows columns threshold rnd ! i ! j) \<and>
         ((\<forall>k. 0 \<le> rnd k \<and> rnd k < 1) \<longrightarrow>
            (threshold = 0 \<longrightarrow> \<not> alive (makeCells vao rows columns threshold rnd ! i ! j)) \<and>
            (threshold = 1 \<longrightarrow> alive (makeCells vao rows columns threshold rnd ! i ! j)))"
  using assms by (auto simp: makeCells_board board_def mkCell_def not_less)

theorem makeCells_flags_witness:
  "(1::nat) < 2 \<and> (2::nat) < 3 \<and> (\<forall>k::nat. (0::real) \<le> 1 / 2 \<and> (1 / 2 :: real) < 1) \<and>
   alive (makeCells (\<lambda>a b. 0) 2 3 1 (\<lambda>k. 1 / 2) ! 1 ! 2)"
proof -
  have h: "(1::nat) < 2" "(2::nat) < 3" by simp_all
  have d: "\<forall>k::nat. (0::real) \<le> 1 / 2 \<and> (1 / 2 :: real) < 1" by simp
  note t = makeCells_flags [OF h, of "\<lambda>a b. 0" 1 "\<lambda>k. 1 / 2"]
  note 1 = t [THEN conjunct2, THEN conjunct2, THEN conjunct2, THEN conjunct2, THEN mp, OF d,
      THEN conjunct2, THEN mp, OF refl]
  from h d 1 show ?thesis by (intro conjI)
qed

section \<open>The course of a pass\<close>

lemma rect_stage: "rect R C cells \<Longrightarrow> rect R C (stage cells i j)"
  by (simp add: rect_def stage_def)

lemma nth_stage:
  "rect R C cells \<Longrightarrow> i' < R \<Longrightarrow> j' < C \<Longrightarrow>
   stage cells i j ! i' ! j' =
     (if i' < i \<or> (i' = i \<and> j' < j) then after cells i' j' else cells ! i' ! j')"
  by (simp add: rect_def stage_def)

lemma stage_start: "rect R C cells \<Longrightarrow> stage cells 0 0 = cells"
  by (rule grid_eqI [of R C]) (simp_all add: rect_stage nth_stage)

lemma stage_next_row: "rect R C cells \<Longrightarrow> stage cells i C = stage cells (Suc i) 0"
  by (rule grid_eqI [of R C]) (auto simp: rect_stage nth_stage)

lemma checkState_stage:
  assumes "rect R C cells" "placed cells" "i < R" "j < C"
  shows "checkState (stage cells i j) i j = Some (stage cells i (Suc j))"
proof -
  let ?S = "stage cells i j"
  let ?c = "cells ! i ! j"
  let ?c1 = "?c\<lparr>alive := nextState ?c\<rparr>"
  let ?B = "setCell ?S i j ?c1"
  from assms have len: "length cells = R" "length (cells ! i) = C" by (simp_all add: rect_def)
  have S: "rect R C ?S" using assms(1) by (rule rect_stage)
  then have lS: "i < length ?S" "j < length (?S ! i)" using assms(3,4) by (simp_all add: rect_def)
  have Sij: "?S ! i ! j = ?c" using assms by (simp add: nth_stage)
  have B: "rect R C ?B" using S by (rule rect_setCell)
  have xy: "x ?c = int i" "y ?c = int j"
    using assms(2-4) len by (simp_all add: placed_def)
  have al: "alive (?B ! i' ! j') = seen cells i j (i', j')" if "i' < R" "j' < C" for i' j'
    using that assms(1) lS by (auto simp: nth_setCell nth_stage seen_def after_def)
  have "liveNeighbors ?c1 ?B =
     Some (int (length (filter (\<lambda>p. alive (?B ! wrapped R (fst p) ! wrapped C (snd p))) (addArgs ?c1))))"
    using B assms(3,4) xy by (intro liveNeighbors_rect) simp_all
  also have "addArgs ?c1 = addArgs ?c" by (simp add: addArgs_def)
  also have "filter (\<lambda>p. alive (?B ! wrapped R (fst p) ! wrapped C (snd p))) (addArgs ?c) =
             filter (\<lambda>p. seen cells i j (wrapped R (fst p), wrapped C (snd p))) (addArgs ?c)"
  proof (rule filter_cong [OF refl])
    fix p assume "p \<in> set (addArgs ?c)"
    then have "- 1 \<le> fst p \<and> fst p \<le> int R \<and> - 1 \<le> snd p \<and> snd p \<le> int C"
      using xy assms(3,4) by (intro addArgs_range [of ?c]) simp_all
    then have "wrapped R (fst p) < R" "wrapped C (snd p) < C"
      using assms(3,4) by (simp_all add: wrapped_less)
    then show "alive (?B ! wrapped R (fst p) ! wrapped C (snd p)) =
               seen cells i j (wrapped R (fst p), wrapped C (snd p))"
      by (rule al)
  qed
  finally have n: "liveNeighbors ?c1 ?B = Some (counted cells i j)"
    by (simp add: counted_def len)
  have "checkState ?S i j = Some (setCell ?S i j
          ((?S ! i ! j)\<lparr>alive := nextState (?S ! i ! j),
             nextState := (if nextState (?S ! i ! j) then counted cells i j = 2 \<or> counted cells i j = 3
                           else counted cells i j = 3)\<rparr>))"
    using lS n by (intro checkState_eq) (simp_all add: Sij)
  also have "(?S ! i ! j)\<lparr>alive := nextState (?S ! i ! j),
             nextState := (if nextState (?S ! i ! j) then counted cells i j = 2 \<or> counted cells i j = 3
                           else counted cells i j = 3)\<rparr> = after cells i j"
    by (simp add: Sij after_def)
  also have "setCell ?S i j (after cells i j) = stage cells i (Suc j)"
  proof (rule grid_eqI [of R C])
    show "rect R C (setCell ?S i j (after cells i j))" using S by (rule rect_setCell)
    show "rect R C (stage cells i (Suc j))" using assms(1) by (rule rect_stage)
    fix i' j' assume "i' < R" "j' < C"
    then show "setCell ?S i j (after cells i j) ! i' ! j' = stage cells i (Suc j) ! i' ! j'"
      using assms(1) lS by (auto simp: nth_setCell nth_stage)
  qed
  finally show ?thesis .
qed

lemma checkRow_stage:
  assumes "rect R C cells" "placed cells" "i < R" "j \<le> C"
  shows "checkRow (stage cells i j) i [j..<C] = Some (stage cells i C)"
  using assms(4)
proof (induction "C - j" arbitrary: j)
  case 0
  then show ?case by simp
next
  case (Suc k)
  then have j: "j < C" by simp
  then have "[j..<C] = j # [Suc j..<C]" by (simp add: upt_rec)
  moreover have "checkRow (stage cells i (Suc j)) i [Suc j..<C] = Some (stage cells i C)"
    using Suc j by (intro Suc.hyps(1)) simp_all
  ultimately show ?case
    using checkState_stage [OF assms(1-3) j] by simp
qed

lemma checkRows_stage:
  assumes "rect R C cells" "placed cells" "i \<le> R"
  shows "checkRows (stage cells i 0) [i..<R] = Some (stage cells R 0)"
  using assms(3)
proof (induction "R - i" arbitrary: i)
  case 0
  then show ?case by simp
next
  case (Suc k)
  then have i: "i < R" by simp
  then have u: "[i..<R] = i # [Suc i..<R]" by (simp add: upt_rec)
  have l: "length (stage cells i 0 ! i) = C"
    using rect_stage [OF assms(1), of i 0] i by (simp add: rect_def)
  have r: "checkRow (stage cells i 0) i [0..<C] = Some (stage cells (Suc i) 0)"
    using checkRow_stage [OF assms(1,2) i, of 0] stage_next_row [OF assms(1), of i] by simp
  have "checkRows (stage cells (Suc i) 0) [Suc i..<R] = Some (stage cells R 0)"
    using Suc i by (intro Suc.hyps(1)) simp_all
  with r show ?case by (simp add: u l)
qed

text \<open>
  A pass over a rectangular board whose cells carry their own positions does not
  panic, and it leaves at every position the cell \<open>after cells i j\<close>: the \<open>alive\<close> flag
  is the former \<open>nextState\<close>, and \<open>nextState\<close> is the rule's output for that flag and
  for a count that has read the former \<open>nextState\<close> of the cells visited before and
  the former \<open>alive\<close> of the cells visited after.
\<close>

lemma pass_stage:
  assumes "rect R C cells" "placed cells"
  shows "pass cells = Some (stage cells R 0)"
  using checkRows_stage [OF assms, of 0] assms(1)
  by (simp add: pass_def stage_start [OF assms(1)] rect_def)

lemma placed_stage:
  assumes "rect R C cells" "placed cells"
  shows "placed (stage cells i j)"
  unfolding placed_def
proof (intro allI impI)
  fix i' j' assume a: "i' < length (stage cells i j)" "j' < length (stage cells i j ! i')"
  from rect_stage [OF assms(1), of i j] a have r: "i' < R" "j' < C" by (simp_all add: rect_def)
  with assms have "x (cells ! i' ! j') = int i' \<and> y (cells ! i' ! j') = int j'"
    by (simp add: placed_def rect_def)
  with r show "x (stage cells i j ! i' ! j') = int i' \<and> y (stage cells i j ! i' ! j') = int j'"
    by (simp add: nth_stage [OF assms(1)] after_def)
qed


lemma counted_eq:
  assumes "rect R C cells" "placed cells" "i < R" "j < C"
  shows "counted cells i j =
     of_bool (seen cells i j (wrapped R (int i - 1), wrapped C (int j))) +
     of_bool (seen cells i j (wrapped R (int i + 1), wrapped C (int j))) +
     of_bool (seen cells i j (wrapped R (int i), wrapped C (int j + 1))) +
     of_bool (seen cells i j (wrapped R (int i), wrapped C (int j - 1))) +
     of_bool (seen cells i j (wrapped R (int i - 1), wrapped C (int j + 1))) +
     of_bool (seen cells i j (wrapped R (int i + 1), wrapped C (int j + 1))) +
     of_bool (seen cells i j (wrapped R (int i - 1), wrapped C (int j - 1))) +
     of_bool (seen cells i j (wrapped R (int i + 1), wrapped C (int j - 1)))"
proof -
  from assms have len: "length cells = R" "length (cells ! i) = C" by (simp_all add: rect_def)
  from assms have xy: "x (cells ! i ! j) = int i" "y (cells ! i ! j) = int j"
    by (simp_all add: placed_def rect_def)
  show ?thesis
    by (simp only: counted_def addArgs_def xy len count8 fst_conv snd_conv)
qed

lemma pass_nth:
  assumes "rect R C cells" "placed cells"
  shows "pass cells = Some (stage cells R 0)"
    and "rect R C (stage cells R 0)" and "placed (stage cells R 0)"
    and "\<And>i j. i < R \<Longrightarrow> j < C \<Longrightarrow> alive (stage cells R 0 ! i ! j) = nextState (cells ! i ! j)"
    and "\<And>i j. i < R \<Longrightarrow> j < C \<Longrightarrow> nextState (stage cells R 0 ! i ! j) =
           (if nextState (cells ! i ! j) then counted cells i j = 2 \<or> counted cells i j = 3
            else counted cells i j = 3)"
  using assms by (simp_all add: pass_stage rect_stage placed_stage nth_stage after_def)

section \<open>What a pass publishes\<close>

text \<open>
  Claim C9. When \<open>checkState\<close> returns, the cell's \<open>alive\<close> flag is the value that its
  \<open>nextState\<close> had before the call, and its \<open>nextState\<close> is what the rule gives for
  the cell. A pass over a rectangular board whose cells carry their positions returns
  the board \<open>stage cells R 0\<close>: it puts into every \<open>alive\<close> flag the \<open>nextState\<close> that
  the board held before the pass, and into every \<open>nextState\<close> the value just computed:
  what is drawn after a pass is what the pass before it computed, one generation
  behind the \<open>nextState\<close> values. On any board, a pass that returns has published
  the former \<open>nextState\<close> of every cell.
\<close>

theorem checkState_publishes:
  "(i < length cells \<and> j < length (cells ! i) \<and>
    liveNeighbors ((cells ! i ! j)\<lparr>alive := nextState (cells ! i ! j)\<rparr>)
      (setCell cells i j ((cells ! i ! j)\<lparr>alive := nextState (cells ! i ! j)\<rparr>)) = Some n \<longrightarrow>
      checkState cells i j \<noteq> None \<and>
      alive (the (checkState cells i j) ! i ! j) = nextState (cells ! i ! j) \<and>
      nextState (the (checkState cells i j) ! i ! j) =
        (if nextState (cells ! i ! j) then n = 2 \<or> n = 3 else n = 3)) \<and>
   (rect R C cells \<and> placed cells \<longrightarrow>
      pass cells = Some (stage cells R 0) \<and>
      rect R C (the (pass cells)) \<and> placed (the (pass cells)) \<and>
      (\<forall>i < R. \<forall>j < C.
         alive (the (pass cells) ! i ! j) = nextState (cells ! i ! j) \<and>
         nextState (the (pass cells) ! i ! j) =
           (if nextState (cells ! i ! j) then counted cells i j = 2 \<or> counted cells i j = 3
            else counted cells i j = 3))) \<and>
   (pass cells = Some cells' \<longrightarrow>
      (\<forall>i < length cells. \<forall>j < length (cells ! i).
         alive (cells' ! i ! j) = nextState (cells ! i ! j)))"
proof (intro conjI impI)
  assume a: "i < length cells \<and> j < length (cells ! i) \<and>
    liveNeighbors ((cells ! i ! j)\<lparr>alive := nextState (cells ! i ! j)\<rparr>)
      (setCell cells i j ((cells ! i ! j)\<lparr>alive := nextState (cells ! i ! j)\<rparr>)) = Some n"
  then have e: "checkState cells i j =
      Some (setCell cells i j
        ((cells ! i ! j)\<lparr>alive := nextState (cells ! i ! j),
           nextState := (if nextState (cells ! i ! j) then n = 2 \<or> n = 3 else n = 3)\<rparr>))"
    by (intro checkState_eq) simp_all
  then show "checkState cells i j \<noteq> None" by simp
  from a show "alive (the (checkState cells i j) ! i ! j) = nextState (cells ! i ! j)"
    by (simp add: e nth_setCell)
  from a show "nextState (the (checkState cells i j) ! i ! j) =
        (if nextState (cells ! i ! j) then n = 2 \<or> n = 3 else n = 3)"
    by (simp add: e nth_setCell)
next
  assume a: "rect R C cells \<and> placed cells"
  then have r: "rect R C cells" "placed cells" by simp_all
  note p = pass_nth [OF r]
  show "pass cells = Some (stage cells R 0)" by (rule p(1))
  show "rect R C (the (pass cells))" "placed (the (pass cells))" by (simp_all add: p(1-3))
  show "\<forall>i < R. \<forall>j < C.
         alive (the (pass cells) ! i ! j) = nextState (cells ! i ! j) \<and>
         nextState (the (pass cells) ! i ! j) =
           (if nextState (cells ! i ! j) then counted cells i j = 2 \<or> counted cells i j = 3
            else counted cells i j = 3)"
    by (simp add: p(1) p(4,5))
next
  assume a: "pass cells = Some cells'"
  from pass_frame(3) [OF a]
  show "\<forall>i < length cells. \<forall>j < length (cells ! i).
         alive (cells' ! i ! j) = nextState (cells ! i ! j)"
    by blast
qed

theorem checkState_publishes_witness:
  "rect 3 3 (setCell (board (\<lambda>a b. 0) 3 3 (\<lambda>i j. i = j)) 2 0
      ((board (\<lambda>a b. 0) 3 3 (\<lambda>i j. i = j) ! 2 ! 0)\<lparr>nextState := True\<rparr>)) \<and>
   placed (setCell (board (\<lambda>a b. 0) 3 3 (\<lambda>i j. i = j)) 2 0
      ((board (\<lambda>a b. 0) 3 3 (\<lambda>i j. i = j) ! 2 ! 0)\<lparr>nextState := True\<rparr>)) \<and>
   alive (setCell (board (\<lambda>a b. 0) 3 3 (\<lambda>i j. i = j)) 2 0
      ((board (\<lambda>a b. 0) 3 3 (\<lambda>i j. i = j) ! 2 ! 0)\<lparr>nextState := True\<rparr>) ! 2 ! 0) = False \<and>
   nextState (setCell (board (\<lambda>a b. 0) 3 3 (\<lambda>i j. i = j)) 2 0
      ((board (\<lambda>a b. 0) 3 3 (\<lambda>i j. i = j) ! 2 ! 0)\<lparr>nextState := True\<rparr>) ! 2 ! 0) = True \<and>
   pass (setCell (board (\<lambda>a b. 0) 3 3 (\<lambda>i j. i = j)) 2 0
      ((board (\<lambda>a b. 0) 3 3 (\<lambda>i j. i = j) ! 2 ! 0)\<lparr>nextState := True\<rparr>)) \<noteq> None \<and>
   alive (the (pass (setCell (board (\<lambda>a b. 0) 3 3 (\<lambda>i j. i = j)) 2 0
      ((board (\<lambda>a b. 0) 3 3 (\<lambda>i j. i = j) ! 2 ! 0)\<lparr>nextState := True\<rparr>))) ! 2 ! 0) = True"
proof -
  let ?B = "board (\<lambda>a b. 0) 3 3 (\<lambda>i j. i = j)"
  let ?W = "setCell ?B 2 0 ((?B ! 2 ! 0)\<lparr>nextState := True\<rparr>)"
  have r: "rect 3 3 ?W" by (intro rect_setCell rect_board)
  have p: "placed ?W" by (intro placed_setCell placed_board) (simp_all add: nth_board)
  have l: "(2::nat) < length ?B" "(0::nat) < length (?B ! 2)" by (simp_all add: board_def)
  have f: "alive (?W ! 2 ! 0) = False" "nextState (?W ! 2 ! 0) = True"
    using l by (simp_all add: nth_setCell nth_board)
  note t = checkState_publishes [of _ _ _ _ 3 3 ?W, THEN conjunct2, THEN conjunct1, THEN mp,
      OF conjI [OF r p]]
  from t [THEN conjunct1] have n: "pass ?W \<noteq> None" by simp
  have i: "(2::nat) < 3" "(0::nat) < 3" by simp_all
  note a = t [THEN conjunct2, THEN conjunct2, THEN conjunct2, rule_format, OF i, THEN conjunct1]
  have a': "alive (the (pass ?W) ! 2 ! 0) = True" unfolding a f(2) by (rule refl)
  from r p f n a' show ?thesis by (intro conjI)
qed

section \<open>The generator during a pass\<close>

lemma makeRow_Float64:
  "makeRow vao th rnd a (b # bs) (row, k) =
     (let d = Float64 (rnd, k)
      in makeRow vao th (fst (snd d)) a bs (row @ [mkCell vao a b (fst d < th)], snd (snd d)))"
  by (simp add: Float64_def newCell_def mkCell_def)








section \<open>The pass is not a simultaneous step\<close>

text \<open>
  The two boards of this section are boards that \<open>makeCells\<close> returns: with the
  threshold of the source (0.15) and draws that are 0 for the cells of the pattern and
  0.5 for all others.
\<close>

lemma blinkerBoard_made:
  "makeCells (\<lambda>a b. 0) 20 20 (3 / 20) (\<lambda>k. if k = 41 \<or> k = 42 \<or> k = 43 then 0 else 1 / 2) =
     blinkerBoard"
  unfolding makeCells_board blinkerBoard_def
proof (rule board_cong)
  fix i j :: nat assume "i < 20" "j < 20"
  then have "(i * 20 + j = 41 \<or> i * 20 + j = 42 \<or> i * 20 + j = 43) = blinker i j"
    unfolding blinker_def by presburger
  then show "((if i * 20 + j = 41 \<or> i * 20 + j = 42 \<or> i * 20 + j = 43 then 0 else 1 / 2)
               < (3 / 20 :: real)) = blinker i j"
    by simp
qed

lemma postsBoard_made:
  "makeCells (\<lambda>a b. 0) 20 20 (3 / 20)
     (\<lambda>k. if k = 104 \<or> k = 106 \<or> k = 124 \<or> k = 126 then 0 else 1 / 2) = postsBoard"
  unfolding makeCells_board postsBoard_def
proof (rule board_cong)
  fix i j :: nat assume "i < 20" "j < 20"
  then have "(i * 20 + j = 104 \<or> i * 20 + j = 106 \<or> i * 20 + j = 124 \<or> i * 20 + j = 126) =
      posts i j"
    unfolding posts_def by presburger
  then show "((if i * 20 + j = 104 \<or> i * 20 + j = 106 \<or> i * 20 + j = 124 \<or> i * 20 + j = 126
               then 0 else 1 / 2) < (3 / 20 :: real)) = posts i j"
    by simp
qed

text \<open>The first three passes over the board of the blinker.\<close>

lemma blinker_run:
  defines "B1 \<equiv> stage blinkerBoard 20 0"
  defines "B2 \<equiv> stage B1 20 0"
  defines "B3 \<equiv> stage B2 20 0"
  shows "pass blinkerBoard = Some B1" "pass B1 = Some B2" "pass B2 = Some B3"
    and "rect 20 20 B1" "placed B1" "rect 20 20 B2" "placed B2"
    and "\<And>i j. i < 20 \<Longrightarrow> j < 20 \<Longrightarrow> alive (B1 ! i ! j) = blinker i j"
    and "alive (B2 ! 0 ! 2) = False" "alive (B2 ! 0 ! 3) = False" "alive (B2 ! 0 ! 4) = False"
    and "alive (B2 ! 1 ! 2) = True" "alive (B2 ! 1 ! 3) = False" "alive (B2 ! 1 ! 4) = False"
    and "alive (B2 ! 2 ! 1) = False" "alive (B2 ! 2 ! 2) = True" "alive (B2 ! 2 ! 3) = False"
    and "alive (B2 ! 2 ! 4) = False" "alive (B2 ! 3 ! 2) = True"
    and "nextState (B2 ! 1 ! 3) = True" "alive (B3 ! 1 ! 3) = True"
proof -
  have r0: "rect 20 20 blinkerBoard" "placed blinkerBoard"
    by (simp_all add: blinkerBoard_def rect_board placed_board)
  note p1 = pass_nth [OF r0, folded B1_def]
  note p2 = pass_nth [OF p1(2,3), folded B2_def]
  note p3 = pass_nth [OF p2(2,3), folded B3_def]
  show "pass blinkerBoard = Some B1" "pass B1 = Some B2" "pass B2 = Some B3"
    "rect 20 20 B1" "placed B1" "rect 20 20 B2" "placed B2"
    by (rule p1 p2 p3)+
  have f0: "alive (blinkerBoard ! i ! j) = blinker i j"
    "nextState (blinkerBoard ! i ! j) = blinker i j" if "i < 20" "j < 20" for i j
    using that by (simp_all add: blinkerBoard_def nth_board)
  show a1: "alive (B1 ! i ! j) = blinker i j" if "i < 20" "j < 20" for i j
    using that by (simp add: p1(4) f0)
  have s0: "seen blinkerBoard i j (a, b) = blinker a b" if "a < 20" "b < 20" for i j a b
    using that by (simp add: seen_def f0)
  have n1: "nextState (B1 ! 0 ! 2) = False" "nextState (B1 ! 0 ! 3) = False"
    "nextState (B1 ! 0 ! 4) = False" "nextState (B1 ! 1 ! 2) = True"
    "nextState (B1 ! 1 ! 3) = False" "nextState (B1 ! 1 ! 4) = False"
    "nextState (B1 ! 2 ! 1) = False" "nextState (B1 ! 2 ! 2) = True"
    "nextState (B1 ! 2 ! 3) = False" "nextState (B1 ! 2 ! 4) = False"
    "nextState (B1 ! 3 ! 2) = True"
    by (simp_all add: p1(5) f0 counted_eq [OF r0] wrapped_def s0 blinker_def)
  show a2: "alive (B2 ! 0 ! 2) = False" "alive (B2 ! 0 ! 3) = False" "alive (B2 ! 0 ! 4) = False"
    "alive (B2 ! 1 ! 2) = True" "alive (B2 ! 1 ! 3) = False" "alive (B2 ! 1 ! 4) = False"
    "alive (B2 ! 2 ! 1) = False" "alive (B2 ! 2 ! 2) = True" "alive (B2 ! 2 ! 3) = False"
    "alive (B2 ! 2 ! 4) = False" "alive (B2 ! 3 ! 2) = True"
    using n1 by (simp_all add: p2(4))
  have c1: "counted B1 1 3 = 3"
    using n1 by (simp add: counted_eq [OF p1(2,3)] wrapped_def seen_def a1 blinker_def)
  show n2: "nextState (B2 ! 1 ! 3) = True"
    using c1 n1 by (simp add: p2(5))
  show "alive (B3 ! 1 ! 3) = True"
    using n2 by (simp add: p3(4))
qed

text \<open>
  Claim C1 fails on the board of the blinker. In the second pass the cell at \<open>(1, 3)\<close>
  is dead, and has two live neighbours in the \<open>alive\<close> flags before the pass as well as
  in the \<open>alive\<close> flags after it; yet the pass sets its \<open>nextState\<close>, which the rule
  does for a dead cell with three live neighbours only. The call has counted the
  neighbour \<open>(1, 2)\<close>, whose flag the pass had set already, together with the
  neighbour \<open>(2, 3)\<close>, whose flag the pass had yet to clear.
\<close>

theorem pass_counts_mixed_flags:
  "passes 1 blinkerBoard \<noteq> None \<and>
   pass (the (passes 1 blinkerBoard)) = passes 2 blinkerBoard \<and>
   passes 2 blinkerBoard \<noteq> None \<and>
   liveNeighbors (the (passes 1 blinkerBoard) ! 1 ! 3) (the (passes 1 blinkerBoard)) = Some 2 \<and>
   liveNeighbors (the (passes 2 blinkerBoard) ! 1 ! 3) (the (passes 2 blinkerBoard)) = Some 2 \<and>
   alive (the (passes 1 blinkerBoard) ! 1 ! 2) = False \<and>
   alive (the (passes 2 blinkerBoard) ! 1 ! 2) = True \<and>
   alive (the (passes 1 blinkerBoard) ! 2 ! 3) = True \<and>
   alive (the (passes 2 blinkerBoard) ! 2 ! 3) = False \<and>
   alive (the (passes 2 blinkerBoard) ! 1 ! 3) = False \<and>
   nextState (the (passes 2 blinkerBoard) ! 1 ! 3) = True"
proof -
  note b = blinker_run
  have ps: "passes 1 blinkerBoard = Some (stage blinkerBoard 20 0)"
    "passes 2 blinkerBoard = Some (stage (stage blinkerBoard 20 0) 20 0)"
    by (simp_all add: numeral_2_eq_2 b(1,2))
  have l1: "liveNeighbors (stage blinkerBoard 20 0 ! 1 ! 3) (stage blinkerBoard 20 0) = Some 2"
    by (simp add: liveNeighbors_eq [OF b(4,5)] wrapped_def b(8) blinker_def)
  have l2: "liveNeighbors (stage (stage blinkerBoard 20 0) 20 0 ! 1 ! 3)
              (stage (stage blinkerBoard 20 0) 20 0) = Some 2"
    using b(9-19) by (simp add: liveNeighbors_eq [OF b(6,7)] wrapped_def)
  have a1: "alive (stage blinkerBoard 20 0 ! 1 ! 2) = False"
    "alive (stage blinkerBoard 20 0 ! 2 ! 3) = True"
    by (simp_all add: b(8) blinker_def)
  from l1 l2 a1 b(12,17,13,20) show ?thesis
    unfolding ps by (simp add: b(2))
qed

text \<open>
  Claim C4 fails on the board of the blinker. After one pass the \<open>alive\<close> flags are
  still those of the blinker. After two passes they show the perpendicular line (at
  the five cells of the two lines). After three passes the cell at \<open>(1, 3)\<close>, which
  belongs to neither line, is alive: the board has not come back to the blinker, and
  neither had the \<open>nextState\<close> flags after two passes.
\<close>

theorem blinker_lost:
  "passes 3 blinkerBoard \<noteq> None \<and>
   aliveFlags (the (passes 1 blinkerBoard)) = aliveFlags blinkerBoard \<and>
   alive (the (passes 2 blinkerBoard) ! 1 ! 2) = True \<and>
   alive (the (passes 2 blinkerBoard) ! 2 ! 2) = True \<and>
   alive (the (passes 2 blinkerBoard) ! 3 ! 2) = True \<and>
   alive (the (passes 2 blinkerBoard) ! 2 ! 1) = False \<and>
   alive (the (passes 2 blinkerBoard) ! 2 ! 3) = False \<and>
   nextState (the (passes 2 blinkerBoard) ! 1 ! 3) = True \<and>
   alive (the (passes 3 blinkerBoard) ! 1 ! 3) = True \<and>
   blinker 1 3 = False"
proof -
  note b = blinker_run
  have ps: "passes 1 blinkerBoard = Some (stage blinkerBoard 20 0)"
    "passes 2 blinkerBoard = Some (stage (stage blinkerBoard 20 0) 20 0)"
    "passes 3 blinkerBoard = Some (stage (stage (stage blinkerBoard 20 0) 20 0) 20 0)"
    by (simp_all add: numeral_2_eq_2 numeral_3_eq_3 b(1-3))
  have fl: "aliveFlags (stage blinkerBoard 20 0) = aliveFlags blinkerBoard"
  proof -
    from b(4) have l: "length (stage blinkerBoard 20 0) = 20"
      "\<And>i. i < 20 \<Longrightarrow> length (stage blinkerBoard 20 0 ! i) = 20"
      by (simp_all add: rect_def)
    have l0: "length blinkerBoard = 20" "\<And>i. i < 20 \<Longrightarrow> length (blinkerBoard ! i) = 20"
      by (simp_all add: blinkerBoard_def board_def)
    have f0: "alive (blinkerBoard ! i ! j) = blinker i j" if "i < 20" "j < 20" for i j
      using that by (simp add: blinkerBoard_def nth_board)
    show ?thesis
      unfolding aliveFlags_def
      by (rule nth_equalityI, simp add: l l0, rule nth_equalityI) (simp_all add: l l0 b(8) f0)
  qed
  from fl b(12,16,19,15,17,20,21) show ?thesis
    unfolding ps by (simp add: blinker_def)
qed

lemma posts_count:
  fixes n :: int
  assumes "r0 \<longrightarrow> ru \<noteq> rd" "\<not> r0 \<longrightarrow> \<not> (ru \<and> rd)" "c0 \<longrightarrow> \<not> cl \<and> \<not> cr"
    and "n = of_bool (ru \<and> c0) + of_bool (rd \<and> c0) + of_bool (r0 \<and> cr) + of_bool (r0 \<and> cl) +
             of_bool (ru \<and> cr) + of_bool (rd \<and> cr) + of_bool (ru \<and> cl) + of_bool (rd \<and> cl)"
  shows "\<not> (if r0 \<and> c0 then n = 2 \<or> n = 3 else n = 3)"
  using assms by (cases r0; cases c0; cases ru; cases rd; cases cl; cases cr) simp_all

lemma posts_rows:
  assumes "i < 20"
  shows "(i = 5 \<or> i = 6) \<longrightarrow>
           (wrapped 20 (int i - 1) = 5 \<or> wrapped 20 (int i - 1) = 6) \<noteq>
           (wrapped 20 (int i + 1) = 5 \<or> wrapped 20 (int i + 1) = 6)"
    and "\<not> (i = 5 \<or> i = 6) \<longrightarrow>
           \<not> ((wrapped 20 (int i - 1) = 5 \<or> wrapped 20 (int i - 1) = 6) \<and>
              (wrapped 20 (int i + 1) = 5 \<or> wrapped 20 (int i + 1) = 6))"
    and "wrapped 20 (int i) = i"
  using assms by (auto simp: wrapped_def nat_eq_iff)

lemma posts_columns:
  assumes "j < 20"
  shows "(j = 4 \<or> j = 6) \<longrightarrow>
           \<not> (wrapped 20 (int j - 1) = 4 \<or> wrapped 20 (int j - 1) = 6) \<and>
           \<not> (wrapped 20 (int j + 1) = 4 \<or> wrapped 20 (int j + 1) = 6)"
    and "wrapped 20 (int j) = j"
  using assms by (auto simp: wrapped_def)

text \<open>
  Claim C6 fails on the board of the four posts. In the first pass every cell gets a
  false \<open>nextState\<close> (each post has one live neighbour, no dead cell has three). After
  two passes every \<open>alive\<close> flag of the board is false; the third pass makes the cell
  at \<open>(5, 5)\<close> alive, among dead neighbours: its \<open>nextState\<close> was set during the second
  pass, when the call counted the posts at \<open>(5, 6)\<close>, \<open>(6, 4)\<close> and \<open>(6, 6)\<close>, whose
  flags the pass had yet to clear.
\<close>

theorem dead_board_revives:
  "passes 2 postsBoard \<noteq> None \<and>
   aliveFlags (the (passes 2 postsBoard)) = replicate 20 (replicate 20 False) \<and>
   pass (the (passes 2 postsBoard)) \<noteq> None \<and>
   alive (the (pass (the (passes 2 postsBoard))) ! 5 ! 5) = True"
proof -
  define B1 where "B1 = stage postsBoard 20 0"
  define B2 where "B2 = stage B1 20 0"
  define B3 where "B3 = stage B2 20 0"
  have r0: "rect 20 20 postsBoard" "placed postsBoard"
    by (simp_all add: postsBoard_def rect_board placed_board)
  note p1 = pass_nth [OF r0, folded B1_def]
  note p2 = pass_nth [OF p1(2,3), folded B2_def]
  note p3 = pass_nth [OF p2(2,3), folded B3_def]
  have f0: "alive (postsBoard ! i ! j) = posts i j" "nextState (postsBoard ! i ! j) = posts i j"
    if "i < 20" "j < 20" for i j
    using that by (simp_all add: postsBoard_def nth_board)
  have s0: "seen postsBoard i j (a, b) = posts a b" if "a < 20" "b < 20" for i j a b
    using that by (simp add: seen_def f0)
  have w: "wrapped 20 a < 20" if "- 1 \<le> a" "a \<le> 20" for a
    using that by (simp add: wrapped_less)
  have a1: "alive (B1 ! i ! j) = posts i j" if "i < 20" "j < 20" for i j
    using that by (simp add: p1(4) f0)
  have n1: "nextState (B1 ! i ! j) = False" if "i < 20" "j < 20" for i j
  proof -
    note sr = posts_rows [OF that(1)]
    note sc = posts_columns [OF that(2)]
    have "counted postsBoard i j =
        of_bool (posts (wrapped 20 (int i - 1)) (wrapped 20 (int j))) +
        of_bool (posts (wrapped 20 (int i + 1)) (wrapped 20 (int j))) +
        of_bool (posts (wrapped 20 (int i)) (wrapped 20 (int j + 1))) +
        of_bool (posts (wrapped 20 (int i)) (wrapped 20 (int j - 1))) +
        of_bool (posts (wrapped 20 (int i - 1)) (wrapped 20 (int j + 1))) +
        of_bool (posts (wrapped 20 (int i + 1)) (wrapped 20 (int j + 1))) +
        of_bool (posts (wrapped 20 (int i - 1)) (wrapped 20 (int j - 1))) +
        of_bool (posts (wrapped 20 (int i + 1)) (wrapped 20 (int j - 1)))"
      using that by (simp add: counted_eq [OF r0] s0 w)
    then have "\<not> (if (i = 5 \<or> i = 6) \<and> (j = 4 \<or> j = 6)
             then counted postsBoard i j = 2 \<or> counted postsBoard i j = 3
             else counted postsBoard i j = 3)"
      by (intro posts_count [OF sr(1,2) sc(1)]) (simp only: posts_def sr(3) sc(2))
    with that show ?thesis by (simp add: p1(5) f0 posts_def)
  qed
  have a2: "alive (B2 ! i ! j) = False" if "i < 20" "j < 20" for i j
    using that by (simp add: p2(4) n1)
  have c1: "counted B1 5 5 = 3"
    by (simp add: counted_eq [OF p1(2,3)] wrapped_def seen_def a1 n1 posts_def)
  have n2: "nextState (B2 ! 5 ! 5) = True"
    using c1 by (simp add: p2(5) n1)
  have a3: "alive (B3 ! 5 ! 5) = True"
    using n2 by (simp add: p3(4))
  have ps2: "passes 2 postsBoard = Some B2"
    by (simp add: numeral_2_eq_2 p1(1) p2(1))
  have fl: "aliveFlags B2 = replicate 20 (replicate 20 False)"
  proof -
    from p2(2) have l: "length B2 = 20" "\<And>i. i < 20 \<Longrightarrow> length (B2 ! i) = 20"
      by (simp_all add: rect_def)
    show ?thesis
      unfolding aliveFlags_def
      by (rule nth_equalityI, simp add: l, rule nth_equalityI) (simp_all add: l a2)
  qed
  from fl a3 show ?thesis by (simp add: ps2 p3(1))
qed

section \<open>Still boards\<close>

lemma checkState_still:
  assumes "i < length cells" "j < length (cells ! i)"
    and "nextState (cells ! i ! j) = alive (cells ! i ! j)"
    and "liveNeighbors (cells ! i ! j) cells = Some n"
    and "(if alive (cells ! i ! j) then n = 2 \<or> n = 3 else n = 3) = alive (cells ! i ! j)"
  shows "checkState cells i j = Some cells"
proof -
  have c: "(cells ! i ! j)\<lparr>alive := nextState (cells ! i ! j)\<rparr> = cells ! i ! j"
    using assms(3) by simp
  have s: "setCell cells i j (cells ! i ! j) = cells"
    using assms(1,2) by (simp add: setCell_same)
  have "checkState cells i j = Some (setCell cells i j
             ((cells ! i ! j)\<lparr>alive := nextState (cells ! i ! j),
                nextState := (if nextState (cells ! i ! j) then n = 2 \<or> n = 3 else n = 3)\<rparr>))"
    using assms(1,2,4) by (intro checkState_eq) (simp_all add: c s)
  also have "(cells ! i ! j)\<lparr>alive := nextState (cells ! i ! j),
                nextState := (if nextState (cells ! i ! j) then n = 2 \<or> n = 3 else n = 3)\<rparr> = cells ! i ! j"
    using assms(3,5) by simp
  finally show ?thesis by (simp add: s)
qed

lemma checkRow_still:
  assumes "still cells" "i < length cells" "\<forall>j \<in> set js. j < length (cells ! i)"
  shows "checkRow cells i js = Some cells"
  using assms(3)
proof (induction js)
  case Nil
  then show ?case by simp
next
  case (Cons j js)
  from Cons.prems have j: "j < length (cells ! i)" by simp
  with assms(1,2) obtain n where "nextState (cells ! i ! j) = alive (cells ! i ! j)"
      "liveNeighbors (cells ! i ! j) cells = Some n"
      "(if alive (cells ! i ! j) then n = 2 \<or> n = 3 else n = 3) = alive (cells ! i ! j)"
    unfolding still_def by blast
  from checkState_still [OF assms(2) j this] Cons show ?case by simp
qed

lemma checkRows_still:
  assumes "still cells" "\<forall>i \<in> set is. i < length cells"
  shows "checkRows cells is = Some cells"
  using assms(2)
proof (induction "is")
  case Nil
  then show ?case by simp
next
  case (Cons i "is")
  then have "checkRow cells i [0..<length (cells ! i)] = Some cells"
    using assms(1) by (intro checkRow_still) simp_all
  with Cons show ?case by simp
qed

lemma pass_still: "still cells \<Longrightarrow> pass cells = Some cells"
  by (simp add: pass_def checkRows_still)

lemma passes_still: "still cells \<Longrightarrow> passes n cells = Some cells"
  by (induction n) (simp_all add: pass_still)

lemma block_count:
  fixes n :: int
  assumes "r0 \<longrightarrow> ru \<noteq> rd" "\<not> r0 \<longrightarrow> \<not> (ru \<and> rd)" "c0 \<longrightarrow> cl \<noteq> cr" "\<not> c0 \<longrightarrow> \<not> (cl \<and> cr)"
    and "n = of_bool (ru \<and> c0) + of_bool (rd \<and> c0) + of_bool (r0 \<and> cr) + of_bool (r0 \<and> cl) +
             of_bool (ru \<and> cr) + of_bool (rd \<and> cr) + of_bool (ru \<and> cl) + of_bool (rd \<and> cl)"
  shows "(if r0 \<and> c0 then n = 2 \<or> n = 3 else n = 3) = (r0 \<and> c0)"
  using assms by (cases r0; cases c0; cases ru; cases rd; cases cl; cases cr) simp_all

lemma block_side:
  assumes "4 \<le> n" "a + 1 < n" "i < n"
  shows "(i = a \<or> i = a + 1) \<longrightarrow>
           (wrapped n (int i - 1) = a \<or> wrapped n (int i - 1) = a + 1) \<noteq>
           (wrapped n (int i + 1) = a \<or> wrapped n (int i + 1) = a + 1)"
    and "\<not> (i = a \<or> i = a + 1) \<longrightarrow>
           \<not> ((wrapped n (int i - 1) = a \<or> wrapped n (int i - 1) = a + 1) \<and>
              (wrapped n (int i + 1) = a \<or> wrapped n (int i + 1) = a + 1))"
    and "wrapped n (int i) = i"
  using assms by (auto simp: wrapped_def nat_eq_iff)

lemma still_block:
  assumes "4 \<le> R" "4 \<le> C" "a + 1 < R" "b + 1 < C"
  shows "still (board vao R C (block a b))"
  unfolding still_def
proof (intro allI impI)
  let ?B = "board vao R C (block a b)"
  fix i j assume "i < length ?B" "j < length (?B ! i)"
  then have r: "i < R" "j < C" by (simp_all add: board_def)
  then have c: "alive (?B ! i ! j) = block a b i j" "nextState (?B ! i ! j) = block a b i j"
    by (simp_all add: nth_board)
  define n where "n = int (length (filter (\<lambda>p. block a b (wrapped R (fst p)) (wrapped C (snd p)))
        [(int i - 1, int j), (int i + 1, int j), (int i, int j + 1), (int i, int j - 1),
         (int i - 1, int j + 1), (int i + 1, int j + 1), (int i - 1, int j - 1),
         (int i + 1, int j - 1)]))"
  have l: "liveNeighbors (?B ! i ! j) ?B = Some n"
    unfolding n_def using r by (rule liveNeighbors_board)
  note sr = block_side [OF assms(1,3) r(1)]
  note sc = block_side [OF assms(2,4) r(2)]
  have "(if block a b i j then n = 2 \<or> n = 3 else n = 3) = block a b i j"
    unfolding block_def
    by (rule block_count [OF sr(1,2) sc(1,2)]) (simp only: n_def count8 fst_conv snd_conv block_def sr(3) sc(3))
  with l c show "nextState (?B ! i ! j) = alive (?B ! i ! j) \<and>
        (\<exists>n. liveNeighbors (?B ! i ! j) ?B = Some n \<and>
             (if alive (?B ! i ! j) then n = 2 \<or> n = 3 else n = 3) = alive (?B ! i ! j))"
    by simp
qed

text \<open>
  On a board of at least four rows and four columns, the block with both flags of
  every cell as \<open>makeCells\<close> sets them is a fixed point of the pass.
\<close>

lemma block_fixed:
  assumes "4 \<le> R" "4 \<le> C" "a + 1 < R" "b + 1 < C"
  shows "pass (board vao R C (block a b)) = Some (board vao R C (block a b)) \<and>
         passes n (board vao R C (block a b)) = Some (board vao R C (block a b))"
  using still_block [OF assms] by (simp add: pass_still passes_still)

lemma blockPostsBoard_made:
  "makeCells (\<lambda>a b. 0) 20 20 (3 / 20)
     (\<lambda>k. if blockPosts (k div 20) (k mod 20) then 0 else 1 / 2) = blockPostsBoard"
  unfolding makeCells_board blockPostsBoard_def
  by (rule board_cong) simp

lemma rows_apart:
  assumes "i < 20"
  shows "(\<forall>q. \<not> block 12 12 (wrapped 20 (int i - 1)) q \<and> \<not> block 12 12 i q \<and>
              \<not> block 12 12 (wrapped 20 (int i + 1)) q) \<or>
         (\<forall>q. \<not> posts (wrapped 20 (int i - 1)) q \<and> \<not> posts i q \<and>
              \<not> posts (wrapped 20 (int i + 1)) q)"
  using assms by (auto simp: block_def posts_def wrapped_def)

text \<open>
  Claim C5 fails on the board of the block and the four posts, which are eight rows
  apart. After two passes the \<open>alive\<close> flags of the board are exactly those of the
  block at rows and columns 12 and 13, every other cell dead; the third pass makes the
  cell at \<open>(5, 5)\<close> alive, whose \<open>nextState\<close> the second pass had set from the flags of
  the posts that it had yet to clear.
\<close>

theorem block_disturbed:
  "passes 2 blockPostsBoard \<noteq> None \<and>
   aliveFlags (the (passes 2 blockPostsBoard)) = aliveFlags (board (\<lambda>a b. 0) 20 20 (block 12 12)) \<and>
   alive (the (passes 2 blockPostsBoard) ! 5 ! 5) = False \<and>
   pass (the (passes 2 blockPostsBoard)) \<noteq> None \<and>
   alive (the (pass (the (passes 2 blockPostsBoard))) ! 5 ! 5) = True"
proof -
  define B1 where "B1 = stage blockPostsBoard 20 0"
  define B2 where "B2 = stage B1 20 0"
  define B3 where "B3 = stage B2 20 0"
  have r0: "rect 20 20 blockPostsBoard" "placed blockPostsBoard"
    by (simp_all add: blockPostsBoard_def rect_board placed_board)
  note p1 = pass_nth [OF r0, folded B1_def]
  note p2 = pass_nth [OF p1(2,3), folded B2_def]
  note p3 = pass_nth [OF p2(2,3), folded B3_def]
  have f0: "alive (blockPostsBoard ! i ! j) = blockPosts i j"
    "nextState (blockPostsBoard ! i ! j) = blockPosts i j" if "i < 20" "j < 20" for i j
    using that by (simp_all add: blockPostsBoard_def nth_board)
  have s0: "seen blockPostsBoard i j (a, b) = blockPosts a b" if "a < 20" "b < 20" for i j a b
    using that by (simp add: seen_def f0)
  have w: "wrapped 20 a < 20" if "- 1 \<le> a" "a \<le> 20" for a
    using that by (simp add: wrapped_less)
  have a1: "alive (B1 ! i ! j) = blockPosts i j" if "i < 20" "j < 20" for i j
    using that by (simp add: p1(4) f0)
  have n1: "nextState (B1 ! i ! j) = block 12 12 i j" if "i < 20" "j < 20" for i j
  proof -
    have c: "counted blockPostsBoard i j =
        of_bool (blockPosts (wrapped 20 (int i - 1)) (wrapped 20 (int j))) +
        of_bool (blockPosts (wrapped 20 (int i + 1)) (wrapped 20 (int j))) +
        of_bool (blockPosts (wrapped 20 (int i)) (wrapped 20 (int j + 1))) +
        of_bool (blockPosts (wrapped 20 (int i)) (wrapped 20 (int j - 1))) +
        of_bool (blockPosts (wrapped 20 (int i - 1)) (wrapped 20 (int j + 1))) +
        of_bool (blockPosts (wrapped 20 (int i + 1)) (wrapped 20 (int j + 1))) +
        of_bool (blockPosts (wrapped 20 (int i - 1)) (wrapped 20 (int j - 1))) +
        of_bool (blockPosts (wrapped 20 (int i + 1)) (wrapped 20 (int j - 1)))"
      using that by (simp add: counted_eq [OF r0] s0 w)
    have wi: "wrapped 20 (int i) = i" "wrapped 20 (int j) = j"
      using that by (simp_all add: wrapped_def)
    from rows_apart [OF that(1)]
    have "(if blockPosts i j
           then counted blockPostsBoard i j = 2 \<or> counted blockPostsBoard i j = 3
           else counted blockPostsBoard i j = 3) = block 12 12 i j"
    proof
      assume nb: "\<forall>q. \<not> block 12 12 (wrapped 20 (int i - 1)) q \<and> \<not> block 12 12 i q \<and>
              \<not> block 12 12 (wrapped 20 (int i + 1)) q"
      note sr = posts_rows [OF that(1)]
      note sc = posts_columns [OF that(2)]
      have "\<not> (if (i = 5 \<or> i = 6) \<and> (j = 4 \<or> j = 6)
             then counted blockPostsBoard i j = 2 \<or> counted blockPostsBoard i j = 3
             else counted blockPostsBoard i j = 3)"
        by (rule posts_count [OF sr(1,2) sc(1)])
           (simp only: c blockPosts_def nb wi simp_thms posts_def sr(3) sc(2))
      with nb show ?thesis by (simp add: blockPosts_def posts_def)
    next
      assume np: "\<forall>q. \<not> posts (wrapped 20 (int i - 1)) q \<and> \<not> posts i q \<and>
              \<not> posts (wrapped 20 (int i + 1)) q"
      have h: "(4::nat) \<le> 20" "(12::nat) + 1 < 20" by simp_all
      note sr = block_side [OF h that(1)]
      note sc = block_side [OF h that(2)]
      have "(if (i = 12 \<or> i = 12 + 1) \<and> (j = 12 \<or> j = 12 + 1)
             then counted blockPostsBoard i j = 2 \<or> counted blockPostsBoard i j = 3
             else counted blockPostsBoard i j = 3) = ((i = 12 \<or> i = 12 + 1) \<and> (j = 12 \<or> j = 12 + 1))"
        by (rule block_count [OF sr(1,2) sc(1,2)])
           (simp only: c blockPosts_def np wi simp_thms block_def sr(3) sc(3))
      with np show ?thesis by (simp add: blockPosts_def block_def)
    qed
    with that show ?thesis by (simp add: p1(5) f0)
  qed
  have a2: "alive (B2 ! i ! j) = block 12 12 i j" if "i < 20" "j < 20" for i j
    using that by (simp add: p2(4) n1)
  have c1: "counted B1 5 5 = 3"
    by (simp add: counted_eq [OF p1(2,3)] wrapped_def seen_def a1 n1 blockPosts_def posts_def
        block_def)
  have n2: "nextState (B2 ! 5 ! 5) = True"
    using c1 by (simp add: p2(5) n1 block_def)
  have a3: "alive (B3 ! 5 ! 5) = True"
    using n2 by (simp add: p3(4))
  have ps2: "passes 2 blockPostsBoard = Some B2"
    by (simp add: numeral_2_eq_2 p1(1) p2(1))
  have fl: "aliveFlags B2 = aliveFlags (board (\<lambda>a b. 0) 20 20 (block 12 12))"
  proof -
    from p2(2) have l: "length B2 = 20" "\<And>i. i < 20 \<Longrightarrow> length (B2 ! i) = 20"
      by (simp_all add: rect_def)
    have l0: "length (board (\<lambda>a b. 0) 20 20 (block 12 12)) = 20"
      "\<And>i. i < 20 \<Longrightarrow> length (board (\<lambda>a b. 0) 20 20 (block 12 12) ! i) = 20"
      by (simp_all add: board_def)
    show ?thesis
      unfolding aliveFlags_def
      by (rule nth_equalityI, simp add: l l0, rule nth_equalityI)
         (simp_all add: l l0 a2 nth_board)
  qed
  have d: "alive (B2 ! 5 ! 5) = False" by (simp add: a2 block_def)
  from fl d a3 show ?thesis by (simp add: ps2 p3(1))
qed

lemma still_dead:
  assumes "rect R C cells" "placed cells"
    and "\<forall>i < R. \<forall>j < C. \<not> alive (cells ! i ! j) \<and> \<not> nextState (cells ! i ! j)"
  shows "still cells"
  unfolding still_def
proof (intro allI impI)
  fix i j assume "i < length cells" "j < length (cells ! i)"
  with assms(1) have r: "i < R" "j < C" by (simp_all add: rect_def)
  with assms(1,2) have xy: "x (cells ! i ! j) = int i" "y (cells ! i ! j) = int j"
    by (simp_all add: placed_def rect_def)
  have "liveNeighbors (cells ! i ! j) cells =
     Some (int (length (filter (\<lambda>p. alive (cells ! wrapped R (fst p) ! wrapped C (snd p)))
        (addArgs (cells ! i ! j)))))"
    using assms(1) r xy by (intro liveNeighbors_rect) simp_all
  also have "filter (\<lambda>p. alive (cells ! wrapped R (fst p) ! wrapped C (snd p)))
        (addArgs (cells ! i ! j)) = []"
  proof (rule filter_False, rule ballI)
    fix p assume "p \<in> set (addArgs (cells ! i ! j))"
    then have "- 1 \<le> fst p \<and> fst p \<le> int R \<and> - 1 \<le> snd p \<and> snd p \<le> int C"
      using xy r by (intro addArgs_range [of "cells ! i ! j"]) simp_all
    then have "wrapped R (fst p) < R" "wrapped C (snd p) < C"
      using r by (simp_all add: wrapped_less)
    with assms(3) show "\<not> alive (cells ! wrapped R (fst p) ! wrapped C (snd p))" by simp
  qed
  finally have "liveNeighbors (cells ! i ! j) cells = Some 0" by simp
  with assms(3) r show "nextState (cells ! i ! j) = alive (cells ! i ! j) \<and>
        (\<exists>n. liveNeighbors (cells ! i ! j) cells = Some n \<and>
             (if alive (cells ! i ! j) then n = 2 \<or> n = 3 else n = 3) = alive (cells ! i ! j))"
    by simp
qed

text \<open>
  A board on which both flags of every cell are false is still: a pass changes nothing
  on it, and neither does any number of passes.
\<close>

lemma dead_stays_dead:
  assumes "rect R C cells" "placed cells"
    and "\<forall>i < R. \<forall>j < C. \<not> alive (cells ! i ! j) \<and> \<not> nextState (cells ! i ! j)"
  shows "passes n cells = Some cells"
  using still_dead [OF assms] by (rule passes_still)

end
